theory Spec2Isabelle
  imports Complex_Main "HOL-Library.Multiset"
begin

section \<open>Exceptions\<close>

text \<open>
  The three ways a call of this module can leave by an exception. \<open>PgError\<close> stands for
  \<^verbatim>\<open>psycopg2.Error\<close> and its subclasses: the only exception the methods of
  \<^verbatim>\<open>Recommender\<close> catch. \<open>TypeError\<close> and \<open>IndexError\<close> are the Python
  built-ins raised by \<^verbatim>\<open>len(None)\<close>, \<^verbatim>\<open>None[i]\<close> and an index out of range.
\<close>

datatype exn = PgError | TypeError | IndexError

section \<open>RatingsTable\<close>

text \<open>
  Modelled from the spec: class \<^verbatim>\<open>RatingsTable\<close> is imported from module
  \<^verbatim>\<open>ratings\<close>, which is not among the sources. Sections 3 and 4.1 of the
  specification describe it as a mapping from person ID to a fixed-length row of
  optional scores, one slot per item, with an item index shared by all rows and
  stable once assigned; \<^verbatim>\<open>get_all_ratings\<close> answers the absent value for a
  person no \<^verbatim>\<open>set_rating\<close> call has mentioned. The constructor call
  \<^verbatim>\<open>RatingsTable(num1, num2)\<close> in \<^verbatim>\<open>recommend\<close> fixes the number of rows
  and of slots. Of the two behaviours the specification allows for a person or an
  item beyond that capacity ("is an error or must auto-extend") the model takes the
  error: \<open>IndexError\<close>.
\<close>

type_synonym row = "int option list"

record RatingsTable =
  person_ids :: "int list"
  item_ids :: "int list"
  cells :: "row list"

definition new_table :: "nat \<Rightarrow> nat \<Rightarrow> RatingsTable" where
  "new_table num_people num_items =
     \<lparr>person_ids = [], item_ids = [], cells = replicate num_people (replicate num_items None)\<rparr>"

fun index_of :: "int list \<Rightarrow> int \<Rightarrow> nat option" where
  "index_of [] x = None"
| "index_of (y # ys) x = (if x = y then Some 0 else map_option Suc (index_of ys x))"

definition num_items :: "RatingsTable \<Rightarrow> nat" where
  "num_items t = (case cells t of [] \<Rightarrow> 0 | r # _ \<Rightarrow> length r)"

definition set_rating :: "RatingsTable \<Rightarrow> int \<Rightarrow> int \<Rightarrow> int \<Rightarrow> exn + RatingsTable" where
  "set_rating t person item score =
     (let ps = (if person \<in> set (person_ids t) then person_ids t else person_ids t @ [person]);
          its = (if item \<in> set (item_ids t) then item_ids t else item_ids t @ [item])
      in case (index_of ps person, index_of its item) of
           (Some p, Some i) \<Rightarrow>
             if p < length (cells t) \<and> i < length (cells t ! p)
             then Inr (t\<lparr>person_ids := ps, item_ids := its,
                          cells := (cells t)[p := (cells t ! p)[i := Some score]]\<rparr>)
             else Inl IndexError
         | _ \<Rightarrow> Inl IndexError)"

definition get_all_ratings :: "RatingsTable \<Rightarrow> int \<Rightarrow> row option" where
  "get_all_ratings t person =
     (case index_of (person_ids t) person of
        None \<Rightarrow> None
      | Some p \<Rightarrow> if p < length (cells t) then Some (cells t ! p) else None)"

text \<open>The invariant of the data model: every row has the same, fixed number of slots.\<close>

definition aligned :: "RatingsTable \<Rightarrow> bool" where
  "aligned t = (\<forall>r \<in> set (cells t). length r = num_items t)"

section \<open>find\_similar\_curator\<close>

text \<open>
  \<^verbatim>\<open>min_diff\<close> starts as \<^verbatim>\<open>float('inf')\<close> and then holds quotients
  \<^verbatim>\<open>diff_sum / num_rtings\<close>. The quotient is modelled by exact rational division:
  Python's float division is correctly rounded, so it orders two quotients as the
  rationals do as long as distinct quotients round to distinct floats, which holds
  for all sums and counts below \<open>2^26\<close>.
\<close>

datatype bound = Infinity | Finite rat

fun less_bound :: "rat \<Rightarrow> bound \<Rightarrow> bool" where
  "less_bound d Infinity = True"
| "less_bound d (Finite m) = (d < m)"

text \<open>
  The inner loop \<^verbatim>\<open>for i in range(len(cur_rating))\<close>, run over the slots of
  \<open>cur_rating\<close> from position \<open>i\<close> on, with the accumulators \<open>diff_sum\<close> and
  \<open>num_rtings\<close>. The condition is evaluated left to right: \<open>cust_rating[i]\<close> is read
  only where \<open>cur_rating[i]\<close> is a score, and reading it raises \<open>TypeError\<close> when
  \<open>cust_rating\<close> is \<open>None\<close> and \<open>IndexError\<close> when it is too short.
\<close>

fun overlap_loop :: "row \<Rightarrow> row option \<Rightarrow> nat \<Rightarrow> int \<Rightarrow> nat \<Rightarrow> exn + (int \<times> nat)" where
  "overlap_loop [] cust_rating i diff_sum num_rtings = Inr (diff_sum, num_rtings)"
| "overlap_loop (None # rest) cust_rating i diff_sum num_rtings =
     overlap_loop rest cust_rating (Suc i) diff_sum num_rtings"
| "overlap_loop (Some a # rest) cust_rating i diff_sum num_rtings =
     (case cust_rating of
        None \<Rightarrow> Inl TypeError
      | Some cr \<Rightarrow>
          if i < length cr then
            (case cr ! i of
               None \<Rightarrow> overlap_loop rest cust_rating (Suc i) diff_sum num_rtings
             | Some b \<Rightarrow> overlap_loop rest cust_rating (Suc i) (diff_sum + \<bar>a - b\<bar>) (Suc num_rtings))
          else Inl IndexError)"

text \<open>The outer loop over \<open>curator_ids\<close>, with the state \<open>(min_curator, min_diff)\<close>.\<close>

fun curator_loop ::
  "RatingsTable \<Rightarrow> row option \<Rightarrow> int list \<Rightarrow> int option \<Rightarrow> bound \<Rightarrow> exn + int option" where
  "curator_loop ratings cust_rating [] min_curator min_diff = Inr min_curator"
| "curator_loop ratings cust_rating (curator # rest) min_curator min_diff =
     (case get_all_ratings ratings curator of
        None \<Rightarrow> Inl TypeError
      | Some cur_rating \<Rightarrow>
          (case overlap_loop cur_rating cust_rating 0 0 0 of
             Inl e \<Rightarrow> Inl e
           | Inr (diff_sum, num_rtings) \<Rightarrow>
               if num_rtings \<noteq> 0 then
                 (let diff = of_int diff_sum / of_nat num_rtings
                  in if less_bound diff min_diff
                     then curator_loop ratings cust_rating rest (Some curator) (Finite diff)
                     else curator_loop ratings cust_rating rest min_curator min_diff)
               else curator_loop ratings cust_rating rest min_curator min_diff))"

definition find_similar_curator :: "RatingsTable \<Rightarrow> int list \<Rightarrow> int \<Rightarrow> exn + int option" where
  "find_similar_curator ratings curator_ids cust_id =
     curator_loop ratings (get_all_ratings ratings cust_id) curator_ids None Infinity"

text \<open>
  The vocabulary of the claims about the matcher: the pairs of scores at the positions
  where both rows hold one, and the mean absolute difference over them.
\<close>

fun common :: "row \<Rightarrow> row \<Rightarrow> (int \<times> int) list" where
  "common (Some a # xs) (Some b # ys) = (a, b) # common xs ys"
| "common (x # xs) (y # ys) = common xs ys"
| "common xs ys = []"

definition mean_abs_diff :: "(int \<times> int) list \<Rightarrow> rat" where
  "mean_abs_diff ps = of_int (\<Sum>(a, b)\<leftarrow>ps. \<bar>a - b\<bar>) / of_nat (length ps)"

definition shared :: "RatingsTable \<Rightarrow> int \<Rightarrow> int \<Rightarrow> (int \<times> int) list" where
  "shared t cust c =
     (case (get_all_ratings t c, get_all_ratings t cust) of
        (Some cur, Some cr) \<Rightarrow> common cur cr
      | _ \<Rightarrow> [])"

definition mean_diff :: "RatingsTable \<Rightarrow> int \<Rightarrow> int \<Rightarrow> rat" where
  "mean_diff t cust c = mean_abs_diff (shared t cust c)"

section \<open>The data store\<close>

text \<open>
  Modelled from the spec: the schema file the class invariant refers to is not among
  the sources. The relations carry the columns the queries of this module name, in
  the order the code reads them by position: \<open>PopularItems(IID)\<close>,
  \<open>Review(CID, IID, rating)\<close>, \<open>DefinitiveRatings(CID, IID, rating)\<close>,
  \<open>Purchase(PID, CID)\<close> and \<open>LineItem(PID, IID, quantity)\<close> (joined by
  \<^verbatim>\<open>NATURAL JOIN\<close> on the purchase they belong to), \<open>Item(IID, category)\<close>,
  and \<open>q3(CID)\<close>, the relation of curators (section 4.5 of the specification:
  definitive ratings are curator ratings restricted to popular items). Columns no
  query reads are left out, ratings and quantities are not null, and key constraints
  are not enforced. A relation is a list: the order of the list is the order in which
  a scan of the relation yields its rows.
\<close>

record relations =
  PopularItems :: "int list"
  Review :: "(int \<times> int \<times> int) list"
  DefinitiveRatings :: "(int \<times> int \<times> int) list"
  Purchase :: "(int \<times> int) list"
  LineItem :: "(int \<times> int \<times> int) list"
  Item :: "(int \<times> string) list"
  q3 :: "int list"

text \<open>
  The store behind \<^verbatim>\<open>db_conn\<close>: the relations, the names of the views and of the
  constraints that exist, and the health of the connection. \<open>fails_after = Some n\<close>
  says that the store serves \<open>n\<close> more statements and raises \<^verbatim>\<open>psycopg2.Error\<close> on
  every statement after them (a lost connection); \<open>None\<close> says that it never does.
  Every statement takes effect when it is executed, and a statement that raises
  leaves the store as it was: transactions are not modelled.
\<close>

record store =
  rels :: relations
  views :: "string list"
  constraints :: "string list"
  fails_after :: "nat option"

type_synonym 'a cmd = "store \<Rightarrow> (exn + 'a) \<times> store"

definition ret :: "'a \<Rightarrow> 'a cmd" where
  "ret x s = (Inr x, s)"

definition lift :: "exn + 'a \<Rightarrow> 'a cmd" where
  "lift r s = (r, s)"

definition bind :: "'a cmd \<Rightarrow> ('a \<Rightarrow> 'b cmd) \<Rightarrow> 'b cmd" where
  "bind m f s = (case m s of (Inl e, s') \<Rightarrow> (Inl e, s') | (Inr x, s') \<Rightarrow> f x s')"

text \<open>\<^verbatim>\<open>try: body except pg.Error: handler\<close>: only \<open>PgError\<close> is caught.\<close>

definition except_pg :: "'a cmd \<Rightarrow> 'a cmd \<Rightarrow> 'a cmd" where
  "except_pg body handler s =
     (case body s of
        (Inl PgError, s') \<Rightarrow> handler s'
      | (Inl e, s') \<Rightarrow> (Inl e, s')
      | (Inr x, s') \<Rightarrow> (Inr x, s'))"

definition serve :: "store \<Rightarrow> store option" where
  "serve s =
     (case fails_after s of
        None \<Rightarrow> Some s
      | Some 0 \<Rightarrow> None
      | Some (Suc n) \<Rightarrow> Some (s\<lparr>fails_after := Some n\<rparr>))"

text \<open>\<^verbatim>\<open>cur.execute(...)\<close>, with the rows the cursor then yields as the result.\<close>

definition execute :: "'a cmd \<Rightarrow> 'a cmd" where
  "execute stmt s = (case serve s of None \<Rightarrow> (Inl PgError, s) | Some s' \<Rightarrow> stmt s')"

definition select :: "(relations \<Rightarrow> 'a) \<Rightarrow> 'a cmd" where
  "select q = execute (\<lambda>s. (Inr (q (rels s)), s))"

text \<open>A query with \<^verbatim>\<open>LIMIT k\<close>: a negative limit is an error of the store.\<close>

definition select_limit :: "int \<Rightarrow> (nat \<Rightarrow> relations \<Rightarrow> 'a) \<Rightarrow> 'a cmd" where
  "select_limit k q =
     execute (\<lambda>s. if k < 0 then (Inl PgError, s) else (Inr (q (nat k) (rels s)), s))"

definition update :: "(relations \<Rightarrow> relations) \<Rightarrow> unit cmd" where
  "update f = execute (\<lambda>s. (Inr (), s\<lparr>rels := f (rels s)\<rparr>))"

definition create_view :: "string \<Rightarrow> unit cmd" where
  "create_view v =
     execute (\<lambda>s. if v \<in> set (views s) then (Inl PgError, s)
                   else (Inr (), s\<lparr>views := v # views s\<rparr>))"

definition drop_view_if_exists :: "string \<Rightarrow> unit cmd" where
  "drop_view_if_exists v = execute (\<lambda>s. (Inr (), s\<lparr>views := removeAll v (views s)\<rparr>))"

definition drop_constraint :: "string \<Rightarrow> unit cmd" where
  "drop_constraint c =
     execute (\<lambda>s. if c \<in> set (constraints s)
                   then (Inr (), s\<lparr>constraints := removeAll c (constraints s)\<rparr>)
                   else (Inl PgError, s))"

definition commit :: "unit cmd" where
  "commit = execute (\<lambda>s. (Inr (), s))"

text \<open>The store after it has served one statement.\<close>

definition tick :: "store \<Rightarrow> store" where
  "tick s = s\<lparr>fails_after := map_option (\<lambda>n. n - 1) (fails_after s)\<rparr>"

text \<open>
  \<^verbatim>\<open>MIN\<close> over no rows is \<^verbatim>\<open>NULL\<close> (Python's \<open>None\<close>), and a comparison with
  \<^verbatim>\<open>NULL\<close> selects no row.
\<close>

definition sql_min :: "'a::linorder list \<Rightarrow> 'a option" where
  "sql_min xs = (case xs of [] \<Rightarrow> None | x # rest \<Rightarrow> Some (fold min rest x))"

definition sql_ge :: "'a::linorder \<Rightarrow> 'a option \<Rightarrow> bool" where
  "sql_ge x v = (case v of None \<Rightarrow> False | Some y \<Rightarrow> y \<le> x)"

text \<open>
  \<^verbatim>\<open>ORDER BY score DESC\<close> on rows \<open>(IID, score)\<close>, and
  \<^verbatim>\<open>ORDER BY score DESC, IID ASC\<close>. Rows with equal keys keep the order in which
  the sorted query yields them (SQL leaves their order open; the sort of the model is
  stable).
\<close>

definition order_by_desc :: "(int \<times> 'a::linordered_idom) list \<Rightarrow> (int \<times> 'a) list" where
  "order_by_desc rows = sort_key (\<lambda>r. - snd r) rows"

definition order_by_desc_iid :: "(int \<times> 'a::linordered_idom) list \<Rightarrow> (int \<times> 'a) list" where
  "order_by_desc_iid rows = sort_key (\<lambda>r. - snd r) (sort_key fst rows)"

section \<open>recommend\_generic\<close>

text \<open>
  The view \<^verbatim>\<open>ratingAverage\<close>: \<^verbatim>\<open>SELECT IID, CAST(SUM(rating) AS float)/COUNT(rating)
  AS average FROM PopularItems NATURAL JOIN Review GROUP BY IID ORDER BY average DESC\<close>.
  The float quotient is an exact rational here, as in the matcher.
\<close>

definition ratingAverage :: "relations \<Rightarrow> (int \<times> rat) list" where
  "ratingAverage t =
     (let joined = [(iid, rating). iid \<leftarrow> PopularItems t, (cid, iid', rating) \<leftarrow> Review t, iid' = iid]
      in order_by_desc
           (map (\<lambda>g. (g, of_int (sum_list [r. (i, r) \<leftarrow> joined, i = g])
                          / of_nat (length [r. (i, r) \<leftarrow> joined, i = g])))
                (remdups (map fst joined))))"

text \<open>
  \<^verbatim>\<open>check == []\<close> compares the cursor object with a list and
  \<^verbatim>\<open>cust_ratings is None\<close> tests the cursor object: both are false whatever the
  query returned.
\<close>

definition cursor_equals_empty_list :: bool where
  "cursor_equals_empty_list = False"

definition cursor_is_None :: bool where
  "cursor_is_None = False"

definition recommend_generic_body :: "int \<Rightarrow> int list cmd" where
  "recommend_generic_body k =
     bind (select (\<lambda>t. int (length (PopularItems t)))) (\<lambda>popular_number.
     if popular_number \<le> k then
       bind (select PopularItems) (\<lambda>iids.
       bind (drop_view_if_exists ''ratingAverage'') (\<lambda>_.
       ret iids))
     else
       bind (create_view ''ratingAverage'') (\<lambda>_.
       bind (select ratingAverage) (\<lambda>check.
       if cursor_equals_empty_list then
         bind (drop_view_if_exists ''ratingAverage'') (\<lambda>_. ret [])
       else
         bind (select_limit k (\<lambda>m t. sql_min (map snd (take m (ratingAverage t))))) (\<lambda>min_a.
         bind (select (\<lambda>t. int (length [r \<leftarrow> ratingAverage t. sql_ge (snd r) min_a]))) (\<lambda>n.
         bind (if n \<le> k
               then select_limit k (\<lambda>m t. map fst (take m (ratingAverage t)))
               else select_limit k (\<lambda>m t. map fst (take m (order_by_desc_iid (ratingAverage t)))))
           (\<lambda>iids.
         bind (drop_view_if_exists ''ratingAverage'') (\<lambda>_.
         ret iids)))))))"

definition recommend_generic :: "int \<Rightarrow> int list option cmd" where
  "recommend_generic k =
     except_pg (bind (recommend_generic_body k) (\<lambda>results. ret (Some results))) (ret None)"

section \<open>recommend\<close>

text \<open>
  The views of \<^verbatim>\<open>recommend\<close>. \<^verbatim>\<open>custRating\<close>: the customer's reviews of popular
  items. \<^verbatim>\<open>custIID\<close>: the items the customer bought. \<^verbatim>\<open>itemLeft\<close>: the distinct
  \<open>(IID, rating)\<close> pairs of the curator's definitive ratings on items the customer
  has not bought, by rating descending; the curator \<open>None\<close> is passed as
  \<^verbatim>\<open>NULL\<close>, and \<^verbatim>\<open>CID = NULL\<close> selects no row.
\<close>

definition custRating :: "int \<Rightarrow> relations \<Rightarrow> (int \<times> int \<times> int) list" where
  "custRating cust t =
     [(cid, iid, rating). (cid, iid, rating) \<leftarrow> Review t, iid' \<leftarrow> PopularItems t,
        iid' = iid, cid = cust]"

definition custIID :: "int \<Rightarrow> relations \<Rightarrow> int list" where
  "custIID cust t =
     [iid. (pid, cid) \<leftarrow> Purchase t, (pid', iid, quantity) \<leftarrow> LineItem t, pid' = pid, cid = cust]"

definition itemLeft :: "int \<Rightarrow> int option \<Rightarrow> relations \<Rightarrow> (int \<times> int) list" where
  "itemLeft cust curator t =
     order_by_desc
       (remdups [(iid, rating). (cid, iid, rating) \<leftarrow> DefinitiveRatings t,
                   iid \<notin> set (custIID cust t), curator = Some cid])"

fun set_ratings :: "RatingsTable \<Rightarrow> (int \<times> int \<times> int) list \<Rightarrow> exn + RatingsTable" where
  "set_ratings t [] = Inr t"
| "set_ratings t ((person, item, score) # rest) =
     (case set_rating t person item score of
        Inl e \<Rightarrow> Inl e
      | Inr t' \<Rightarrow> set_ratings t' rest)"

definition drop_recommend_views :: "unit cmd" where
  "drop_recommend_views =
     bind (drop_view_if_exists ''result'') (\<lambda>_.
     bind (drop_view_if_exists ''itemLeft'') (\<lambda>_.
     bind (drop_view_if_exists ''custIID'') (\<lambda>_.
     drop_view_if_exists ''custRating'')))"

definition recommend_body :: "int \<Rightarrow> int \<Rightarrow> int list option cmd" where
  "recommend_body cust k =
     bind (select (\<lambda>t. (int (length (remdups (map fst (DefinitiveRatings t)))),
                         int (length (remdups (map (\<lambda>r. fst (snd r)) (DefinitiveRatings t)))))))
       (\<lambda>x.
     let num1 = fst x + 1; num2 = snd x; t0 = new_table (nat num1) (nat num2) in
     bind (create_view ''custRating'') (\<lambda>_.
     bind (select (custRating cust)) (\<lambda>cust_ratings.
     if cursor_is_None then
       bind (drop_view_if_exists ''custRating'') (\<lambda>_. recommend_generic k)
     else
       bind (lift (set_ratings t0 cust_ratings)) (\<lambda>t1.
       bind (select DefinitiveRatings) (\<lambda>raters.
       bind (lift (set_ratings t1 raters)) (\<lambda>t2.
       bind (select (\<lambda>t. remdups (map fst (DefinitiveRatings t)))) (\<lambda>curators.
       bind (lift (find_similar_curator t2 curators cust)) (\<lambda>curator.
       bind (create_view ''custIID'') (\<lambda>_.
       bind (create_view ''itemLeft'') (\<lambda>_.
       bind (select_limit k (\<lambda>m t. sql_min (map snd (take m (itemLeft cust curator t))))) (\<lambda>min_r.
       bind (select (\<lambda>t. int (length [r \<leftarrow> itemLeft cust curator t. sql_ge (snd r) min_r]))) (\<lambda>n.
       let result =
             (if n \<le> k
              then (\<lambda>m t. map fst (take m (itemLeft cust curator t)))
              else (\<lambda>m t. map fst (take m (order_by_desc_iid (itemLeft cust curator t))))) in
       bind (create_view ''result'') (\<lambda>_.
       bind (select_limit k (\<lambda>m t. int (length (result m t)))) (\<lambda>item_num.
       if curator = None \<or> item_num = 0 then
         bind drop_recommend_views (\<lambda>_. recommend_generic k)
       else
         bind (select_limit k result) (\<lambda>items.
         bind drop_recommend_views (\<lambda>_.
         ret (Some items)))))))))))))))))"

definition recommend :: "int \<Rightarrow> int \<Rightarrow> int list option cmd" where
  "recommend cust k = except_pg (recommend_body cust k) (ret None)"

section \<open>repopulate\<close>

text \<open>
  The views of \<^verbatim>\<open>repopulate\<close>. \<^verbatim>\<open>totalNumber\<close>: the units sold of each item, by
  item. \<^verbatim>\<open>popular\<close>: of each category, the two items of rank one and two by units
  sold (\<^verbatim>\<open>row_number()\<close> over the category by quantity descending).
  \<^verbatim>\<open>definitive\<close>: the reviews of the curators of \<open>q3\<close> on popular items.
\<close>

definition totalNumber :: "relations \<Rightarrow> (int \<times> int) list" where
  "totalNumber t =
     sort_key fst
       (map (\<lambda>g. (g, sum_list [quantity. (pid, iid, quantity) \<leftarrow> LineItem t, iid = g]))
            (remdups (map (\<lambda>r. fst (snd r)) (LineItem t))))"

definition popular :: "relations \<Rightarrow> int list" where
  "popular t =
     (let joined = [(iid, category, quantity).
                      (iid, quantity) \<leftarrow> totalNumber t, (iid', category) \<leftarrow> Item t, iid' = iid]
      in concat (map (\<lambda>c. map fst (take 2 (sort_key (\<lambda>r. - snd (snd r))
                                              [r \<leftarrow> joined. fst (snd r) = c])))
                     (remdups (map (\<lambda>r. fst (snd r)) joined))))"

definition definitive :: "relations \<Rightarrow> (int \<times> int \<times> int) list" where
  "definitive t =
     [(cid, iid, rating). cid \<leftarrow> q3 t, (cid', iid, rating) \<leftarrow> Review t, cid' = cid,
        iid' \<leftarrow> PopularItems t, iid' = iid]"

definition repopulate_body :: "unit cmd" where
  "repopulate_body =
     bind (update (\<lambda>t. t\<lparr>DefinitiveRatings := []\<rparr>)) (\<lambda>_.
     bind (update (\<lambda>t. t\<lparr>PopularItems := []\<rparr>)) (\<lambda>_.
     bind (create_view ''totalNumber'') (\<lambda>_.
     bind (create_view ''popular'') (\<lambda>_.
     bind (update (\<lambda>t. t\<lparr>PopularItems := PopularItems t @ popular t\<rparr>)) (\<lambda>_.
     bind (create_view ''definitive'') (\<lambda>_.
     bind (drop_constraint ''definitiveratings_cid_fkey'') (\<lambda>_.
     bind (update (\<lambda>t. t\<lparr>DefinitiveRatings := DefinitiveRatings t @ definitive t\<rparr>)) (\<lambda>_.
     bind (drop_view_if_exists ''popular'') (\<lambda>_.
     bind (drop_view_if_exists ''totalNumber'') (\<lambda>_.
     bind (drop_view_if_exists ''definitive'') (\<lambda>_.
     commit)))))))))))"

definition repopulate :: "int cmd" where
  "repopulate = except_pg (bind repopulate_body (\<lambda>_. ret 0)) (ret (- 1))"

section \<open>Properties of commands\<close>

text \<open>
  Three properties of a command, for reasoning about the runs that end in an error:
  \<open>keeps v m\<close>: whatever the outcome, a view \<open>v\<close> that exists before \<open>m\<close> exists
  after it; \<open>leaves v m\<close>: so it does when \<open>m\<close> raises \<^verbatim>\<open>psycopg2.Error\<close>;
  \<open>never_pg m\<close>: \<open>m\<close> does not raise \<^verbatim>\<open>psycopg2.Error\<close>.
\<close>

definition keeps :: "string \<Rightarrow> 'a cmd \<Rightarrow> bool" where
  "keeps v m = (\<forall>s. v \<in> set (views s) \<longrightarrow> v \<in> set (views (snd (m s))))"

definition leaves :: "string \<Rightarrow> 'a cmd \<Rightarrow> bool" where
  "leaves v m = (\<forall>s. v \<in> set (views s) \<longrightarrow> fst (m s) = Inl PgError \<longrightarrow> v \<in> set (views (snd (m s))))"


text \<open>
  For the runs that end well: \<open>heal s\<close> is the store \<open>s\<close> on a connection that is
  never lost, and a command \<open>replays\<close> when each of its runs that returns a value
  returns the same value, and leaves the same store up to the connection, from the
  healed store (\<open>replays_some\<close>: each run that returns a list).
\<close>

definition heal :: "store \<Rightarrow> store" where
  "heal s = s\<lparr>fails_after := None\<rparr>"

definition replays :: "'a cmd \<Rightarrow> bool" where
  "replays m = (\<forall>s x s'. m s = (Inr x, s') \<longrightarrow> m (heal s) = (Inr x, heal s'))"

definition replays_some :: "'a option cmd \<Rightarrow> bool" where
  "replays_some m = (\<forall>s x s'. m s = (Inr (Some x), s') \<longrightarrow> m (heal s) = (Inr (Some x), heal s'))"

section \<open>The vocabulary of the claims\<close>

text \<open>
  The Top-K selection policy, written after section 4.3 of the specification and not
  after the code. The candidates are pairs \<open>(item ID, score)\<close> in ranked order.
  \<open>ranks_before\<close> is the order "score descending, item ID ascending", and
  \<open>rerank\<close> sorts by it (by insertion). \<open>kth_highest K\<close> is the least score among
  the first \<open>K\<close> entries.
\<close>

definition ranks_before :: "(int \<times> 'a::linorder) \<Rightarrow> (int \<times> 'a) \<Rightarrow> bool" where
  "ranks_before a b = (snd b < snd a \<or> (snd a = snd b \<and> fst a \<le> fst b))"

fun insert_ranked :: "(int \<times> 'a::linorder) \<Rightarrow> (int \<times> 'a) list \<Rightarrow> (int \<times> 'a) list" where
  "insert_ranked e [] = [e]"
| "insert_ranked e (x # xs) = (if ranks_before e x then e # x # xs else x # insert_ranked e xs)"

definition rerank :: "(int \<times> 'a::linorder) list \<Rightarrow> (int \<times> 'a) list" where
  "rerank xs = foldr insert_ranked xs []"

definition kth_highest :: "nat \<Rightarrow> (int \<times> 'a::linorder) list \<Rightarrow> 'a" where
  "kth_highest K ranked = min_list (map snd (take K ranked))"

definition qualifying :: "nat \<Rightarrow> (int \<times> 'a::linorder) list \<Rightarrow> (int \<times> 'a) list" where
  "qualifying K ranked = [e \<leftarrow> ranked. kth_highest K ranked \<le> snd e]"

definition top_k_selection :: "nat \<Rightarrow> (int \<times> 'a::linorder) list \<Rightarrow> (int \<times> 'a) list" where
  "top_k_selection K ranked =
     (if length ranked \<le> K then ranked
      else if length (qualifying K ranked) \<le> K then qualifying K ranked
      else take K (rerank ranked))"

text \<open>
  The table \<^verbatim>\<open>recommend\<close> fills and the curator the matcher then answers, as
  functions of the relations: what the statements of \<^verbatim>\<open>recommend\<close> compute up to
  the call of \<^verbatim>\<open>find_similar_curator\<close> when the store serves them all.
\<close>

definition ratings_table :: "int \<Rightarrow> relations \<Rightarrow> exn + RatingsTable" where
  "ratings_table cust t =
     (let num1 = int (length (remdups (map fst (DefinitiveRatings t)))) + 1;
          num2 = int (length (remdups (map (\<lambda>r. fst (snd r)) (DefinitiveRatings t))))
      in case set_ratings (new_table (nat num1) (nat num2)) (custRating cust t) of
           Inl e \<Rightarrow> Inl e
         | Inr t1 \<Rightarrow> set_ratings t1 (DefinitiveRatings t))"

definition similar_curator :: "int \<Rightarrow> relations \<Rightarrow> exn + int option" where
  "similar_curator cust t =
     (case ratings_table cust t of
        Inl e \<Rightarrow> Inl e
      | Inr tab \<Rightarrow> find_similar_curator tab (remdups (map fst (DefinitiveRatings t))) cust)"

text \<open>
  The ratings of an item: by any customer (relation \<open>Review\<close>), and by the curators
  (the definitive ratings), with their means.
\<close>

definition review_scores :: "relations \<Rightarrow> int \<Rightarrow> int list" where
  "review_scores t i = [rating. (cid, iid, rating) \<leftarrow> Review t, iid = i]"

definition review_mean :: "relations \<Rightarrow> int \<Rightarrow> rat" where
  "review_mean t i = of_int (sum_list (review_scores t i)) / of_nat (length (review_scores t i))"

definition curator_scores :: "relations \<Rightarrow> int \<Rightarrow> int list" where
  "curator_scores t i = [rating. (cid, iid, rating) \<leftarrow> DefinitiveRatings t, iid = i]"

definition curator_mean :: "relations \<Rightarrow> int \<Rightarrow> rat" where
  "curator_mean t i = of_int (sum_list (curator_scores t i)) / of_nat (length (curator_scores t i))"

text \<open>
  The qualifying candidate items of a call. For \<^verbatim>\<open>recommend_generic\<close>: the popular
  items when they are at most \<open>k\<close>, else the popular items with at least one rating.
  For \<^verbatim>\<open>recommend\<close>: the items the matched curator rated and the customer has not
  bought, and those of \<^verbatim>\<open>recommend_generic\<close> where it falls back.
\<close>

definition generic_candidates :: "int \<Rightarrow> relations \<Rightarrow> int set" where
  "generic_candidates k t =
     (if int (length (PopularItems t)) \<le> k then set (PopularItems t)
      else set [i \<leftarrow> PopularItems t. review_scores t i \<noteq> []])"

definition recommend_candidates :: "int \<Rightarrow> int \<Rightarrow> relations \<Rightarrow> int set" where
  "recommend_candidates cust k t =
     (case similar_curator cust t of
        Inr (Some c) \<Rightarrow>
          if itemLeft cust (Some c) t = [] then generic_candidates k t
          else fst ` set (itemLeft cust (Some c) t)
      | _ \<Rightarrow> generic_candidates k t)"

section \<open>Examples\<close>

text \<open>
  A store with three popular items, the curators 7 and 8, the customer 5, who bought
  item 10 and rated items 10 and 20, and the customers 6 and 9, who rated item 30 and
  are no curators.
\<close>

definition shop_relations :: relations where
  "shop_relations =
     \<lparr>PopularItems = [10, 20, 30],
      Review = [(7, 10, 5), (8, 10, 4), (7, 20, 4), (8, 20, 5), (7, 30, 3),
                (5, 10, 5), (5, 20, 3), (6, 30, 5), (9, 30, 5)],
      DefinitiveRatings = [(7, 10, 5), (7, 20, 4), (7, 30, 3), (8, 10, 4), (8, 20, 5)],
      Purchase = [(1, 5)],
      LineItem = [(1, 10, 2)],
      Item = [(10, ''a''), (20, ''a''), (30, ''b'')],
      q3 = [7, 8]\<rparr>"

definition shop :: store where
  "shop = \<lparr>rels = shop_relations, views = [],
            constraints = [''definitiveratings_cid_fkey''], fails_after = None\<rparr>"

text \<open>A store whose one popular item nobody has rated.\<close>

definition unrated_shop :: store where
  "unrated_shop =
     \<lparr>rels = \<lparr>PopularItems = [10], Review = [], DefinitiveRatings = [], Purchase = [],
               LineItem = [], Item = [(10, ''a'')], q3 = []\<rparr>,
      views = [], constraints = [''definitiveratings_cid_fkey''], fails_after = None\<rparr>"

text \<open>A store with two popular items, neither of them rated.\<close>

definition unrated_pair :: store where
  "unrated_pair = unrated_shop\<lparr>rels := (rels unrated_shop)\<lparr>PopularItems := [10, 20]\<rparr>\<rparr>"

text \<open>The first store on a connection that is lost after three statements.\<close>

definition dying_shop :: store where
  "dying_shop = shop\<lparr>fails_after := Some 3\<rparr>"


text \<open>
  The example of the specification: customer 5 rated items 10 and 20 with 5 and 3,
  curator 1 (A) with 5 and 3, curator 2 (B) with 1 and 1; curator 3 (C) rated only item
  30, which customer 5 has not rated.
\<close>

definition example_table :: RatingsTable where
  "example_table =
     \<lparr>person_ids = [5, 1, 2, 3], item_ids = [10, 20, 30],
      cells = [[Some 5, Some 3, None], [Some 5, Some 3, None],
               [Some 1, Some 1, None], [None, None, Some 4]]\<rparr>"

section \<open>The matcher returns the first curator of least mean difference\<close>

lemma overlap_loop_common:
  "i + length cur \<le> length cr \<Longrightarrow>
   overlap_loop cur (Some cr) i ds n =
     Inr (ds + (\<Sum>(a, b)\<leftarrow>common cur (drop i cr). \<bar>a - b\<bar>), n + length (common cur (drop i cr)))"
proof (induction cur arbitrary: i ds n)
  case Nil
  then show ?case by simp
next
  case (Cons x cur)
  then have i: "i < length cr" and le: "Suc i + length cur \<le> length cr" by simp_all
  have d: "drop i cr = cr ! i # drop (Suc i) cr" using i by (simp add: Cons_nth_drop_Suc)
  show ?case
  proof (cases x)
    case None
    then show ?thesis using Cons.IH[OF le] d by simp
  next
    case (Some a)
    then show ?thesis using Cons.IH[OF le] d i by (cases "cr ! i") simp_all
  qed
qed

lemma curator_step:
  assumes "get_all_ratings t cust = Some cr" "get_all_ratings t c = Some cur" "length cur \<le> length cr"
  shows "curator_loop t (Some cr) (c # cs) mc md =
     (if shared t cust c \<noteq> [] \<and> less_bound (mean_diff t cust c) md
      then curator_loop t (Some cr) cs (Some c) (Finite (mean_diff t cust c))
      else curator_loop t (Some cr) cs mc md)"
  using assms overlap_loop_common[of 0 cur cr 0 0]
  by (simp add: shared_def mean_diff_def mean_abs_diff_def Let_def)

declare curator_loop.simps(2) [simp del]

lemma curator_loop_char:
  assumes cu: "get_all_ratings t cust = Some cr"
    and pre: "\<forall>c \<in> set cs. \<exists>cur. get_all_ratings t c = Some cur \<and> length cur \<le> length cr"
  shows "(if \<forall>c \<in> set cs. shared t cust c \<noteq> [] \<longrightarrow> \<not> less_bound (mean_diff t cust c) md
          then curator_loop t (Some cr) cs mc md = Inr mc
          else \<exists>before c after. cs = before @ c # after
                 \<and> curator_loop t (Some cr) cs mc md = Inr (Some c)
                 \<and> shared t cust c \<noteq> [] \<and> less_bound (mean_diff t cust c) md
                 \<and> (\<forall>x \<in> set before. shared t cust x \<noteq> [] \<longrightarrow> mean_diff t cust c < mean_diff t cust x)
                 \<and> (\<forall>x \<in> set after. shared t cust x \<noteq> [] \<longrightarrow> mean_diff t cust c \<le> mean_diff t cust x))"
  using pre
proof (induction cs arbitrary: mc md)
  case Nil
  then show ?case by simp
next
  case (Cons c cs)
  from Cons.prems obtain cur where cur: "get_all_ratings t c = Some cur" "length cur \<le> length cr"
    by auto
  from Cons.prems
  have pre': "\<forall>c \<in> set cs. \<exists>cur. get_all_ratings t c = Some cur \<and> length cur \<le> length cr"
    by simp
  note step = curator_step[OF cu cur, of cs mc md]
  let ?d = "mean_diff t cust c"
  show ?case
  proof (cases "shared t cust c \<noteq> [] \<and> less_bound ?d md")
    case True
    note IH = Cons.IH[OF pre', of "Finite ?d" "Some c"]
    show ?thesis
    proof (cases "\<forall>x \<in> set cs. shared t cust x \<noteq> [] \<longrightarrow> \<not> less_bound (mean_diff t cust x) (Finite ?d)")
      case allge: True
      with IH have r: "curator_loop t (Some cr) cs (Some c) (Finite ?d) = Inr (Some c)" by simp
      have "c # cs = [] @ c # cs \<and> curator_loop t (Some cr) (c # cs) mc md = Inr (Some c)
          \<and> shared t cust c \<noteq> [] \<and> less_bound ?d md
          \<and> (\<forall>x \<in> set []. shared t cust x \<noteq> [] \<longrightarrow> ?d < mean_diff t cust x)
          \<and> (\<forall>x \<in> set cs. shared t cust x \<noteq> [] \<longrightarrow> ?d \<le> mean_diff t cust x)"
        using True allge r step by (auto simp: not_less)
      then show ?thesis using True by (metis list.set_intros(1))
    next
      case False
      from IH[unfolded if_not_P[OF False]] obtain before x after where b: "cs = before @ x # after"
        "curator_loop t (Some cr) cs (Some c) (Finite ?d) = Inr (Some x)"
        "shared t cust x \<noteq> []" "less_bound (mean_diff t cust x) (Finite ?d)"
        "\<forall>y \<in> set before. shared t cust y \<noteq> [] \<longrightarrow> mean_diff t cust x < mean_diff t cust y"
        "\<forall>y \<in> set after. shared t cust y \<noteq> [] \<longrightarrow> mean_diff t cust x \<le> mean_diff t cust y"
        by blast
      have lb: "less_bound (mean_diff t cust x) md"
        using True b(4) by (cases md) auto
      have "c # cs = (c # before) @ x # after \<and> curator_loop t (Some cr) (c # cs) mc md = Inr (Some x)
          \<and> shared t cust x \<noteq> [] \<and> less_bound (mean_diff t cust x) md
          \<and> (\<forall>y \<in> set (c # before). shared t cust y \<noteq> [] \<longrightarrow> mean_diff t cust x < mean_diff t cust y)
          \<and> (\<forall>y \<in> set after. shared t cust y \<noteq> [] \<longrightarrow> mean_diff t cust x \<le> mean_diff t cust y)"
        using True b lb step by auto
      then show ?thesis using True by (metis list.set_intros(1))
    qed
  next
    case notbetter: False
    have step': "curator_loop t (Some cr) (c # cs) mc md = curator_loop t (Some cr) cs mc md"
      by (rule trans[OF step if_not_P[OF notbetter]])
    note IH = Cons.IH[OF pre', of md mc]
    show ?thesis
    proof (cases "\<forall>x \<in> set cs. shared t cust x \<noteq> [] \<longrightarrow> \<not> less_bound (mean_diff t cust x) md")
      case True
      with IH notbetter step' show ?thesis by auto
    next
      case False
      from IH[unfolded if_not_P[OF False]] obtain before x after where b: "cs = before @ x # after"
        "curator_loop t (Some cr) cs mc md = Inr (Some x)"
        "shared t cust x \<noteq> []" "less_bound (mean_diff t cust x) md"
        "\<forall>y \<in> set before. shared t cust y \<noteq> [] \<longrightarrow> mean_diff t cust x < mean_diff t cust y"
        "\<forall>y \<in> set after. shared t cust y \<noteq> [] \<longrightarrow> mean_diff t cust x \<le> mean_diff t cust y"
        by blast
      have "shared t cust c \<noteq> [] \<longrightarrow> mean_diff t cust x < ?d"
        using notbetter b(4) by (cases md) auto
      then have "c # cs = (c # before) @ x # after \<and> curator_loop t (Some cr) (c # cs) mc md = Inr (Some x)
          \<and> shared t cust x \<noteq> [] \<and> less_bound (mean_diff t cust x) md
          \<and> (\<forall>y \<in> set (c # before). shared t cust y \<noteq> [] \<longrightarrow> mean_diff t cust x < mean_diff t cust y)
          \<and> (\<forall>y \<in> set after. shared t cust y \<noteq> [] \<longrightarrow> mean_diff t cust x \<le> mean_diff t cust y)"
        using b step' by auto
      moreover have "\<not> (\<forall>y \<in> set (c # cs). shared t cust y \<noteq> [] \<longrightarrow> \<not> less_bound (mean_diff t cust y) md)"
        using False by auto
      ultimately show ?thesis by (metis (no_types, lifting))
    qed
  qed
qed

lemma aligned_row_length:
  "aligned t \<Longrightarrow> get_all_ratings t p = Some r \<Longrightarrow> length r = num_items t"
  by (auto simp: aligned_def get_all_ratings_def split: option.splits if_splits)

lemma aligned_rows:
  assumes "aligned t" "get_all_ratings t cust = Some cr" "\<forall>c \<in> set cs. get_all_ratings t c \<noteq> None"
  shows "\<forall>c \<in> set cs. \<exists>cur. get_all_ratings t c = Some cur \<and> length cur \<le> length cr"
proof
  fix c assume "c \<in> set cs"
  with assms(3) obtain cur where cur: "get_all_ratings t c = Some cur" by auto
  with assms(1,2) have "length cur = length cr" by (simp add: aligned_row_length)
  with cur show "\<exists>cur. get_all_ratings t c = Some cur \<and> length cur \<le> length cr" by simp
qed

lemma example_table_aligned: "aligned example_table"
  by (simp add: aligned_def example_table_def num_items_def)

lemma example_table_rows:
  "get_all_ratings example_table 5 = Some [Some 5, Some 3, None]"
  "get_all_ratings example_table 1 = Some [Some 5, Some 3, None]"
  "get_all_ratings example_table 2 = Some [Some 1, Some 1, None]"
  "get_all_ratings example_table 3 = Some [None, None, Some 4]"
  by (simp_all add: get_all_ratings_def example_table_def)

lemma example_table_shared:
  "shared example_table 5 1 = [(5, 5), (3, 3)]"
  "shared example_table 5 2 = [(1, 5), (1, 3)]"
  "shared example_table 5 3 = []"
  by (simp_all add: shared_def example_table_rows)



text \<open>
  C2. Under the same preconditions the call returns \<open>None\<close> exactly when no curator of
  \<open>curator_ids\<close> shares a rated position with the customer, and a curator it returns
  always shares one.
\<close>

theorem find_similar_curator_none_iff:
  assumes "aligned t"
    and "get_all_ratings t cust \<noteq> None"
    and "\<forall>c \<in> set curator_ids. get_all_ratings t c \<noteq> None"
  shows "(find_similar_curator t curator_ids cust = Inr None
            \<longleftrightarrow> (\<forall>c \<in> set curator_ids. shared t cust c = []))
         \<and> (\<forall>c. find_similar_curator t curator_ids cust = Inr (Some c)
                 \<longrightarrow> c \<in> set curator_ids \<and> shared t cust c \<noteq> [])"
proof -
  from assms(2) obtain cr where cr: "get_all_ratings t cust = Some cr" by auto
  note rows = aligned_rows[OF assms(1) cr assms(3)]
  note char = curator_loop_char[OF cr rows, of Infinity None]
  show ?thesis
  proof (cases "\<forall>c \<in> set curator_ids. shared t cust c = []")
    case True
    then have "\<forall>c \<in> set curator_ids. shared t cust c \<noteq> [] \<longrightarrow> \<not> less_bound (mean_diff t cust c) Infinity"
      by simp
    from char[unfolded if_P[OF this]] True
    show ?thesis unfolding find_similar_curator_def cr by simp
  next
    case False
    then have "\<not> (\<forall>c \<in> set curator_ids. shared t cust c \<noteq> [] \<longrightarrow> \<not> less_bound (mean_diff t cust c) Infinity)"
      by simp
    from char[unfolded if_not_P[OF this]] False
    show ?thesis unfolding find_similar_curator_def cr by auto
  qed
qed

theorem find_similar_curator_none_iff_witness:
  "aligned example_table
   \<and> get_all_ratings example_table 5 \<noteq> None
   \<and> get_all_ratings example_table 3 \<noteq> None
   \<and> shared example_table 5 3 = []
   \<and> find_similar_curator example_table [3] 5 = Inr None"
proof -
  have h2: "get_all_ratings example_table 5 \<noteq> None"
    by (simp add: example_table_rows)
  have h3: "\<forall>c \<in> set [3]. get_all_ratings example_table c \<noteq> None"
    by (simp add: example_table_rows)
  from find_similar_curator_none_iff[OF example_table_aligned h2 h3]
  show ?thesis using example_table_aligned by (simp add: example_table_rows example_table_shared)
qed

section \<open>The Top-K selection of both call sites\<close>

lemma ranks_before_total: "ranks_before a b \<or> ranks_before b a"
  by (auto simp: ranks_before_def)

lemma ranks_before_trans: "ranks_before a b \<Longrightarrow> ranks_before b c \<Longrightarrow> ranks_before a c"
  by (auto simp: ranks_before_def)

lemma ranks_before_antisym: "ranks_before a b \<Longrightarrow> ranks_before b a \<Longrightarrow> a = b"
  by (auto simp: ranks_before_def prod_eq_iff)

lemma set_insert_ranked [simp]: "set (insert_ranked e xs) = insert e (set xs)"
  by (induction xs) auto

lemma mset_insert_ranked [simp]: "mset (insert_ranked e xs) = add_mset e (mset xs)"
  by (induction xs) auto

lemma sorted_insert_ranked:
  "sorted_wrt ranks_before xs \<Longrightarrow> sorted_wrt ranks_before (insert_ranked e xs)"
proof (induction xs)
  case Nil
  then show ?case by simp
next
  case (Cons x xs)
  show ?case
  proof (cases "ranks_before e x")
    case True
    have "\<forall>z \<in> set xs. ranks_before e z"
    proof
      fix z assume "z \<in> set xs"
      with Cons.prems have "ranks_before x z" by simp
      with True show "ranks_before e z" by (rule ranks_before_trans)
    qed
    with True Cons.prems show ?thesis by simp
  next
    case False
    then have "ranks_before x e" using ranks_before_total by blast
    with False Cons show ?thesis by auto
  qed
qed

lemma mset_rerank [simp]: "mset (rerank xs) = mset xs"
  by (induction xs) (simp_all add: rerank_def)

lemma sorted_rerank: "sorted_wrt ranks_before (rerank xs)"
  by (induction xs) (simp_all add: rerank_def sorted_insert_ranked)

lemma ranked_unique:
  "sorted_wrt ranks_before xs \<Longrightarrow> sorted_wrt ranks_before ys \<Longrightarrow> mset xs = mset ys \<Longrightarrow> xs = ys"
proof (induction xs arbitrary: ys)
  case Nil
  then show ?case by simp
next
  case (Cons x xs)
  then obtain y ys' where ys: "ys = y # ys'" by (cases ys) auto
  have "x \<in> set ys" using Cons.prems(3) by (metis list.set_intros(1) set_mset_mset)
  then have yx: "y = x \<or> ranks_before y x" using Cons.prems(2) ys by auto
  have "y \<in> set (x # xs)" using Cons.prems(3) ys by (metis list.set_intros(1) set_mset_mset)
  then have xy: "x = y \<or> ranks_before x y" using Cons.prems(1) by auto
  from xy yx have eq: "x = y" using ranks_before_antisym by blast
  with Cons.prems ys have "xs = ys'" by (intro Cons.IH) auto
  with eq ys show ?case by simp
qed

lemma sorted_insort_desc_iid:
  fixes e :: "int \<times> 'a::linordered_idom"
  assumes "sorted_wrt ranks_before xs" "\<forall>z \<in> set xs. fst e \<le> fst z"
  shows "sorted_wrt ranks_before (insort_key (\<lambda>r. - snd r) e xs)"
  using assms
proof (induction xs)
  case Nil
  then show ?case by simp
next
  case (Cons x xs)
  show ?case
  proof (cases "- snd e \<le> - snd x")
    case True
    have "\<forall>z \<in> set (x # xs). ranks_before e z"
    proof
      fix z assume z: "z \<in> set (x # xs)"
      then have "z = x \<or> ranks_before x z" using Cons.prems(1) by auto
      then have "snd z \<le> snd x" by (auto simp: ranks_before_def)
      with True Cons.prems(2) z show "ranks_before e z" by (auto simp: ranks_before_def)
    qed
    with True Cons.prems(1) show ?thesis by simp
  next
    case False
    then have "ranks_before x e" by (auto simp: ranks_before_def)
    with False Cons show ?thesis by (auto simp: set_insort_key)
  qed
qed

lemma sorted_sort_key_desc:
  fixes ys :: "(int \<times> 'a::linordered_idom) list"
  shows "sorted (map fst ys) \<Longrightarrow> sorted_wrt ranks_before (sort_key (\<lambda>r. - snd r) ys)"
proof (induction ys)
  case Nil
  then show ?case by simp
next
  case (Cons y ys)
  then have "sorted_wrt ranks_before (sort_key (\<lambda>r. - snd r) ys)" by simp
  moreover have "\<forall>z \<in> set (sort_key (\<lambda>r. - snd r) ys). fst y \<le> fst z"
    using Cons.prems by simp
  ultimately show ?case by (simp add: sorted_insort_desc_iid)
qed

lemma sorted_order_by_desc_iid:
  fixes rows :: "(int \<times> 'a::linordered_idom) list"
  shows "sorted_wrt ranks_before (order_by_desc_iid rows)"
  unfolding order_by_desc_iid_def by (rule sorted_sort_key_desc) simp

lemma order_by_desc_iid_rerank:
  fixes rows :: "(int \<times> 'a::linordered_idom) list"
  shows "order_by_desc_iid rows = rerank rows"
  by (rule ranked_unique[OF sorted_order_by_desc_iid sorted_rerank]) (simp add: order_by_desc_iid_def)

lemma fold_min_min_list: "fold min rest (x::'a::linorder) = min_list (x # rest)"
proof (induction rest arbitrary: x)
  case Nil
  then show ?case by simp
next
  case (Cons y rest)
  have "fold min (y # rest) x = fold min rest (min y x)" by simp
  also have "\<dots> = min_list (min y x # rest)" by (rule Cons.IH)
  also have "\<dots> = min_list (x # y # rest)"
    by (cases rest) (simp_all add: min.assoc min.commute min.left_commute)
  finally show ?case .
qed

lemma sql_min_min_list: "xs \<noteq> [] \<Longrightarrow> sql_min xs = Some (min_list xs)"
  by (cases xs) (simp_all add: sql_min_def fold_min_min_list del: min_list.simps)

lemma min_list_le: "x \<in> set xs \<Longrightarrow> min_list xs \<le> (x::'a::linorder)"
proof -
  assume x: "x \<in> set xs"
  then have "xs \<noteq> []" by auto
  then have "min_list xs = Min (set xs)" by (rule min_list_Min)
  with x show ?thesis by simp
qed

lemma site_policy:
  fixes rows :: "(int \<times> 'a::linordered_idom) list"
  assumes "0 < k"
  shows "(if int (length [r \<leftarrow> rows. sql_ge (snd r) (sql_min (map snd (take (nat k) rows)))]) \<le> k
          then take (nat k) rows
          else take (nat k) (order_by_desc_iid rows))
         = top_k_selection (nat k) rows"
proof (cases "length rows \<le> nat k")
  case True
  have "length [r \<leftarrow> rows. sql_ge (snd r) (sql_min (map snd (take (nat k) rows)))] \<le> length rows"
    by simp
  with True assms have "int (length [r \<leftarrow> rows. sql_ge (snd r) (sql_min (map snd (take (nat k) rows)))]) \<le> k"
    by linarith
  with True show ?thesis by (simp add: top_k_selection_def)
next
  case False
  let ?K = "nat k"
  from False assms have ne: "map snd (take ?K rows) \<noteq> []" by auto
  let ?v = "kth_highest ?K rows"
  have m: "sql_min (map snd (take ?K rows)) = Some ?v"
    using sql_min_min_list[OF ne] by (simp add: kth_highest_def)
  have q: "[r \<leftarrow> rows. sql_ge (snd r) (Some ?v)] = [e \<leftarrow> rows. ?v \<le> snd e]"
    by (simp add: sql_ge_def)
  have all: "\<forall>e \<in> set (take ?K rows). ?v \<le> snd e"
  proof
    fix e assume "e \<in> set (take ?K rows)"
    then have "snd e \<in> set (map snd (take ?K rows))" by (simp only: set_map) (rule imageI)
    then show "?v \<le> snd e" unfolding kth_highest_def by (rule min_list_le)
  qed
  have split: "[e \<leftarrow> rows. ?v \<le> snd e] = take ?K rows @ [e \<leftarrow> drop ?K rows. ?v \<le> snd e]"
  proof -
    have "[e \<leftarrow> rows. ?v \<le> snd e] = [e \<leftarrow> take ?K rows @ drop ?K rows. ?v \<le> snd e]" by simp
    also have "\<dots> = [e \<leftarrow> take ?K rows. ?v \<le> snd e] @ [e \<leftarrow> drop ?K rows. ?v \<le> snd e]"
      by (simp only: filter_append)
    also have "[e \<leftarrow> take ?K rows. ?v \<le> snd e] = take ?K rows" using all by (simp add: filter_id_conv)
    finally show ?thesis .
  qed
  have lenK: "length (take ?K rows) = ?K" using False by simp
  show ?thesis
  proof (cases "length [e \<leftarrow> rows. ?v \<le> snd e] \<le> ?K")
    case True
    with split lenK have "[e \<leftarrow> drop ?K rows. ?v \<le> snd e] = []"
      by (metis add_le_same_cancel1 le_zero_eq length_0_conv length_append)
    with split have "[e \<leftarrow> rows. ?v \<le> snd e] = take ?K rows" by simp
    moreover from True assms have "int (length [e \<leftarrow> rows. ?v \<le> snd e]) \<le> k" by linarith
    ultimately show ?thesis using False True by (simp add: top_k_selection_def qualifying_def m q Let_def)
  next
    case F2: False
    then have "\<not> int (length [e \<leftarrow> rows. ?v \<le> snd e]) \<le> k" by linarith
    then show ?thesis using False F2
      by (simp add: top_k_selection_def qualifying_def m q Let_def order_by_desc_iid_rerank)
  qed
qed

section \<open>Runs on a store that serves every statement\<close>

lemma serve_healthy: "fails_after s = None \<Longrightarrow> serve s = Some s"
  by (simp add: serve_def)

lemma select_healthy: "fails_after s = None \<Longrightarrow> select q s = (Inr (q (rels s)), s)"
  by (simp add: select_def execute_def serve_healthy)

lemma select_limit_healthy:
  "fails_after s = None \<Longrightarrow> 0 \<le> k \<Longrightarrow> select_limit k q s = (Inr (q (nat k) (rels s)), s)"
  by (simp add: select_limit_def execute_def serve_healthy)

lemma create_view_healthy:
  "fails_after s = None \<Longrightarrow> v \<notin> set (views s) \<Longrightarrow>
   create_view v s = (Inr (), s\<lparr>views := v # views s\<rparr>)"
  by (simp add: create_view_def execute_def serve_healthy)

lemma drop_view_healthy:
  "fails_after s = None \<Longrightarrow>
   drop_view_if_exists v s = (Inr (), s\<lparr>views := removeAll v (views s)\<rparr>)"
  by (simp add: drop_view_if_exists_def execute_def serve_healthy)

lemma bind_Inr: "m s = (Inr x, s1) \<Longrightarrow> bind m f s = f x s1"
  by (simp add: bind_def)

lemma bind_Inl: "m s = (Inl e, s1) \<Longrightarrow> bind m f s = (Inl e, s1)"
  by (simp add: bind_def)

lemma bind_select_healthy:
  "fails_after s = None \<Longrightarrow> bind (select q) f s = f (q (rels s)) s"
  by (simp add: bind_def select_healthy)

lemma bind_select_limit_healthy:
  "fails_after s = None \<Longrightarrow> 0 \<le> k \<Longrightarrow> bind (select_limit k q) f s = f (q (nat k) (rels s)) s"
  by (simp add: bind_def select_limit_healthy)

lemma bind_create_view_healthy:
  "fails_after s = None \<Longrightarrow> v \<notin> set (views s) \<Longrightarrow>
   bind (create_view v) f s = f () (s\<lparr>views := v # views s\<rparr>)"
  by (simp add: bind_def create_view_healthy)

lemma bind_drop_view_healthy:
  "fails_after s = None \<Longrightarrow>
   bind (drop_view_if_exists v) f s = f () (s\<lparr>views := removeAll v (views s)\<rparr>)"
  by (simp add: bind_def drop_view_healthy)

lemmas healthy_binds = bind_select_healthy bind_select_limit_healthy bind_create_view_healthy
  bind_drop_view_healthy

lemma recommend_generic_body_healthy:
  assumes h: "fails_after s = None" and v: "''ratingAverage'' \<notin> set (views s)" and k: "0 < k"
  shows "recommend_generic_body k s =
           (Inr (if int (length (PopularItems (rels s))) \<le> k then PopularItems (rels s)
                 else map fst (top_k_selection (nat k) (ratingAverage (rels s)))), s)"
proof (cases "int (length (PopularItems (rels s))) \<le> k")
  case True
  then show ?thesis
    using h v unfolding recommend_generic_body_def
    by (simp add: healthy_binds ret_def)
next
  case False
  let ?s1 = "s\<lparr>views := ''ratingAverage'' # views s\<rparr>"
  have h1: "fails_after ?s1 = None" using h by simp
  have k0: "0 \<le> k" using k by simp
  note pol = site_policy[OF k, of "ratingAverage (rels s)"]
  have sel: "bind (if int (length [r \<leftarrow> ratingAverage (rels s).
                  sql_ge (snd r) (sql_min (map snd (take (nat k) (ratingAverage (rels s)))))]) \<le> k
              then select_limit k (\<lambda>m t. map fst (take m (ratingAverage t)))
              else select_limit k (\<lambda>m t. map fst (take m (order_by_desc_iid (ratingAverage t))))) f ?s1
            = f (map fst (top_k_selection (nat k) (ratingAverage (rels s)))) ?s1" for f :: "int list \<Rightarrow> int list cmd"
    using pol[symmetric] by (simp add: bind_select_limit_healthy[OF h1 k0])
  have fin: "?s1\<lparr>views := removeAll ''ratingAverage'' (views ?s1)\<rparr> = s"
    using v by simp
  show ?thesis
    using False h v k0 unfolding recommend_generic_body_def cursor_equals_empty_list_def
    by (simp add: healthy_binds sel ret_def)
qed

lemma recommend_generic_healthy:
  assumes h: "fails_after s = None" and v: "''ratingAverage'' \<notin> set (views s)" and k: "0 < k"
  shows "recommend_generic k s =
           (Inr (Some (if int (length (PopularItems (rels s))) \<le> k then PopularItems (rels s)
                 else map fst (top_k_selection (nat k) (ratingAverage (rels s))))), s)"
  unfolding recommend_generic_def except_pg_def
  by (simp add: bind_def recommend_generic_body_healthy[OF assms] ret_def)

lemma length_top_k_selection:
  fixes rows :: "(int \<times> 'a::linordered_idom) list"
  assumes "0 < K"
  shows "length (top_k_selection K rows) = min K (length rows)"
proof -
  have "0 < int K" using assms by simp
  from site_policy[OF this, of rows, symmetric] show ?thesis
    by (simp add: order_by_desc_iid_def split: if_splits)
qed

lemma bind_lift_Inr: "bind (lift (Inr x)) f s = f x s"
  by (simp add: bind_def lift_def)

lemma bind_lift_Inl: "bind (lift (Inl e)) f s = (Inl e, s)"
  by (simp add: bind_def lift_def)

lemma drop_recommend_views_healthy:
  assumes "fails_after s = None"
  shows "bind drop_recommend_views f s =
     f () (s\<lparr>views := removeAll ''custRating'' (removeAll ''custIID''
              (removeAll ''itemLeft'' (removeAll ''result'' (views s))))\<rparr>)"
  using assms unfolding drop_recommend_views_def
  by (simp add: bind_def drop_view_healthy)

lemma recommend_body_healthy:
  assumes h: "fails_after s = None"
    and v: "''custRating'' \<notin> set (views s)" "''custIID'' \<notin> set (views s)"
           "''itemLeft'' \<notin> set (views s)" "''result'' \<notin> set (views s)"
    and k: "0 < k"
    and c: "similar_curator cust (rels s) = Inr c"
  shows "recommend_body cust k s =
           (if c = None \<or> itemLeft cust c (rels s) = [] then recommend_generic k s
            else (Inr (Some (map fst (top_k_selection (nat k) (itemLeft cust c (rels s))))), s))"
proof -
  let ?rows = "itemLeft cust c (rels s)"
  let ?K = "nat k"
  have k0: "0 \<le> k" and K: "0 < ?K" using k by simp_all
  from c obtain t1 t2 where
    t1: "set_ratings (new_table (nat (int (length (remdups (map fst (DefinitiveRatings (rels s))))) + 1))
            (nat (int (length (remdups (map (\<lambda>r. fst (snd r)) (DefinitiveRatings (rels s))))))))
            (custRating cust (rels s)) = Inr t1"
    and t2: "set_ratings t1 (DefinitiveRatings (rels s)) = Inr t2"
    and fc: "find_similar_curator t2 (remdups (map fst (DefinitiveRatings (rels s)))) cust = Inr c"
    by (auto simp: similar_curator_def ratings_table_def Let_def split: sum.splits)
  note pol = site_policy[OF k, of ?rows]
  have len: "length (top_k_selection ?K ?rows) = min ?K (length ?rows)"
    by (rule length_top_k_selection[OF K])
  have empty: "top_k_selection ?K ?rows = [] \<longleftrightarrow> ?rows = []"
    using len K by (metis length_0_conv min_less_iff_conj not_gr_zero)
  have z: "min (length ?rows) ?K = 0 \<longleftrightarrow> ?rows = []"
    using K by (cases ?rows) (simp_all add: min_def)
  have lo: "length (order_by_desc_iid ?rows) = length ?rows" by (simp add: order_by_desc_iid_def)
  have fin: "removeAll ''custRating'' (removeAll ''custIID'' (removeAll ''itemLeft''
       (removeAll ''result'' (''result'' # ''itemLeft'' # ''custIID'' # ''custRating'' # views s))))
       = views s"
    using v by simp
  show ?thesis
  proof (cases "int (length [r \<leftarrow> ?rows. sql_ge (snd r) (sql_min (map snd (take ?K ?rows)))]) \<le> k")
    case True
    with pol have eq: "take ?K ?rows = top_k_selection ?K ?rows" by simp
    show ?thesis
      unfolding recommend_body_def cursor_is_None_def
      using h v k0 K True t1 t2 fc empty z lo
      by (simp add: healthy_binds bind_lift_Inr drop_recommend_views_healthy Let_def
          eq fin ret_def del: removeAll.simps)
  next
    case False
    with pol have eq: "take ?K (order_by_desc_iid ?rows) = top_k_selection ?K ?rows" by simp
    show ?thesis
      unfolding recommend_body_def cursor_is_None_def
      using h v k0 K False t1 t2 fc empty z lo
      by (simp add: healthy_binds bind_lift_Inr drop_recommend_views_healthy Let_def
          eq fin ret_def del: removeAll.simps)
  qed
qed

section \<open>The two recommendation methods on the examples\<close>

lemma shop_ratingAverage: "ratingAverage shop_relations = [(10, 14 / 3), (30, 13 / 3), (20, 4)]"
  by code_simp

lemma shop_similar_curator: "similar_curator 5 shop_relations = Inr (Some 7)"
  by code_simp

lemma shop_itemLeft: "itemLeft 5 (Some 7) shop_relations = [(20, 4), (30, 3)]"
  by code_simp

lemma shop_top2: "map fst (top_k_selection 2 [(10, 14 / 3), (30, 13 / 3), (20, 4::rat)]) = [10, 30]"
  by code_simp

lemma shop_top1: "map fst (top_k_selection (Suc 0) [(20, 4), (30, 3::int)]) = [20]"
  by code_simp

lemma shop_fields:
  "rels shop = shop_relations" "views shop = []" "fails_after shop = None"
  "constraints shop = [''definitiveratings_cid_fkey'']"
  by (simp_all add: shop_def)

lemma shop_popular: "PopularItems shop_relations = [10, 20, 30]"
  by (simp add: shop_relations_def)

lemma recommend_generic_not_pg: "fst (recommend_generic k s) \<noteq> Inl PgError"
  unfolding recommend_generic_def except_pg_def ret_def
  by (auto split: prod.splits sum.splits exn.splits)

lemma except_pg_id: "fst (m s) \<noteq> Inl PgError \<Longrightarrow> except_pg m h s = m s"
  unfolding except_pg_def by (auto split: prod.splits sum.splits exn.splits)

lemma recommend_healthy:
  assumes h: "fails_after s = None"
    and v: "''custRating'' \<notin> set (views s)" "''custIID'' \<notin> set (views s)"
           "''itemLeft'' \<notin> set (views s)" "''result'' \<notin> set (views s)"
    and k: "0 < k"
    and c: "similar_curator cust (rels s) = Inr c"
  shows "recommend cust k s =
           (if c = None \<or> itemLeft cust c (rels s) = [] then recommend_generic k s
            else (Inr (Some (map fst (top_k_selection (nat k) (itemLeft cust c (rels s))))), s))"
proof -
  note b = recommend_body_healthy[OF assms]
  have "fst (recommend_body cust k s) \<noteq> Inl PgError"
    unfolding b using recommend_generic_not_pg[of k s] by simp
  then have "recommend cust k s = recommend_body cust k s"
    unfolding recommend_def by (rule except_pg_id)
  with b show ?thesis by simp
qed

lemma top_k_selection_cases:
  fixes rows :: "(int \<times> 'a::linorder) list"
  assumes "rows \<noteq> []"
  shows "top_k_selection K rows =
           (if K < length (qualifying K rows) then take K (rerank rows) else qualifying K rows)"
proof (cases "length rows \<le> K")
  case True
  then have t: "take K rows = rows" by simp
  have "\<forall>e \<in> set rows. kth_highest K rows \<le> snd e"
  proof
    fix e assume "e \<in> set rows"
    then have "snd e \<in> set (map snd rows)" by (simp only: set_map) (rule imageI)
    then show "kth_highest K rows \<le> snd e" unfolding kth_highest_def t by (rule min_list_le)
  qed
  then have "qualifying K rows = rows" by (simp add: qualifying_def filter_id_conv)
  with True show ?thesis by (simp add: top_k_selection_def)
next
  case False
  then show ?thesis by (auto simp: top_k_selection_def)
qed

text \<open>
  C3. On a store that serves every statement and holds none of the views the two
  methods create, for \<open>k > 0\<close>: where \<^verbatim>\<open>recommend_generic\<close> ranks (more than
  \<open>k\<close> popular items) it returns the item IDs of the Top-K selection of section 4.3
  over the rows of \<^verbatim>\<open>ratingAverage\<close>, and where \<^verbatim>\<open>recommend\<close> does not fall
  back (a curator was matched and has a rated item the customer has not bought) it
  returns the item IDs of the same selection over the rows of \<^verbatim>\<open>itemLeft\<close>. That
  selection is: when more than \<open>K\<close> entries score at least the K-th highest score,
  the first \<open>K\<close> of the entries ordered by score descending, then item ID ascending;
  otherwise exactly the entries that score at least the K-th highest score.
\<close>

theorem top_k_policy_at_both_call_sites:
  fixes ranked :: "(int \<times> 'a::linorder) list"
  assumes "fails_after s = None" and "0 < k"
    and "''ratingAverage'' \<notin> set (views s)"
    and "''custRating'' \<notin> set (views s)" and "''custIID'' \<notin> set (views s)"
    and "''itemLeft'' \<notin> set (views s)" and "''result'' \<notin> set (views s)"
  shows "(k < int (length (PopularItems (rels s))) \<longrightarrow>
            recommend_generic k s =
              (Inr (Some (map fst (top_k_selection (nat k) (ratingAverage (rels s))))), s))
       \<and> (\<forall>c. similar_curator cust (rels s) = Inr (Some c) \<and> itemLeft cust (Some c) (rels s) \<noteq> [] \<longrightarrow>
            recommend cust k s =
              (Inr (Some (map fst (top_k_selection (nat k) (itemLeft cust (Some c) (rels s))))), s))
       \<and> (ranked \<noteq> [] \<longrightarrow>
            top_k_selection K ranked =
              (if K < length (qualifying K ranked) then take K (rerank ranked)
               else qualifying K ranked))
       \<and> sorted_wrt ranks_before (rerank ranked) \<and> mset (rerank ranked) = mset ranked"
proof (intro conjI allI impI)
  assume "k < int (length (PopularItems (rels s)))"
  then show "recommend_generic k s =
      (Inr (Some (map fst (top_k_selection (nat k) (ratingAverage (rels s))))), s)"
    using recommend_generic_healthy[OF assms(1,3,2)] by simp
next
  fix c assume "similar_curator cust (rels s) = Inr (Some c) \<and> itemLeft cust (Some c) (rels s) \<noteq> []"
  then show "recommend cust k s =
      (Inr (Some (map fst (top_k_selection (nat k) (itemLeft cust (Some c) (rels s))))), s)"
    using recommend_healthy[OF assms(1,4,5,6,7,2), of cust "Some c"] by simp
next
  assume "ranked \<noteq> []"
  then show "top_k_selection K ranked =
      (if K < length (qualifying K ranked) then take K (rerank ranked) else qualifying K ranked)"
    by (rule top_k_selection_cases)
next
  show "sorted_wrt ranks_before (rerank ranked)" by (rule sorted_rerank)
next
  show "mset (rerank ranked) = mset ranked" by simp
qed

theorem top_k_policy_at_both_call_sites_witness:
  "fails_after shop = None \<and> (0::int) < 2 \<and> (0::int) < 1
   \<and> ''ratingAverage'' \<notin> set (views shop)
   \<and> ''custRating'' \<notin> set (views shop) \<and> ''custIID'' \<notin> set (views shop)
   \<and> ''itemLeft'' \<notin> set (views shop) \<and> ''result'' \<notin> set (views shop)
   \<and> (2::int) < int (length (PopularItems (rels shop)))
   \<and> similar_curator 5 (rels shop) = Inr (Some 7)
   \<and> itemLeft 5 (Some 7) (rels shop) = [(20, 4), (30, 3)]
   \<and> recommend_generic 2 shop = (Inr (Some [10, 30]), shop)
   \<and> recommend 5 1 shop = (Inr (Some [20]), shop)"
proof -
  have v: "fails_after shop = None" "''ratingAverage'' \<notin> set (views shop)"
    "''custRating'' \<notin> set (views shop)" "''custIID'' \<notin> set (views shop)"
    "''itemLeft'' \<notin> set (views shop)" "''result'' \<notin> set (views shop)"
    by (simp_all add: shop_fields)
  have k2: "(0::int) < 2" and k1: "(0::int) < 1" by simp_all
  note t2 = top_k_policy_at_both_call_sites[OF v(1) k2 v(2-6), of 5 "[]::(int \<times> int) list" 0]
  note t1 = top_k_policy_at_both_call_sites[OF v(1) k1 v(2-6), of 5 "[]::(int \<times> int) list" 0]
  have g: "recommend_generic 2 shop = (Inr (Some [10, 30]), shop)"
    using t2 by (simp add: shop_fields shop_popular shop_ratingAverage shop_top2)
  have r: "recommend 5 1 shop = (Inr (Some [20]), shop)"
    using t1 by (simp add: shop_fields shop_similar_curator shop_itemLeft shop_top1)
  show ?thesis using v g r
    by (simp add: shop_fields shop_popular shop_similar_curator shop_itemLeft)
qed

section \<open>Fallback to the generic recommendation\<close>

lemma unrated_fields:
  "rels unrated_shop = \<lparr>PopularItems = [10], Review = [], DefinitiveRatings = [], Purchase = [],
               LineItem = [], Item = [(10, ''a'')], q3 = []\<rparr>"
  "views unrated_shop = []" "fails_after unrated_shop = None"
  by (simp_all add: unrated_shop_def)


lemma unrated_generic: "recommend_generic 1 unrated_shop = (Inr (Some [10]), unrated_shop)"
  using recommend_generic_healthy[of unrated_shop 1] by (simp add: unrated_fields)



section \<open>The ranking of recommend\_generic\<close>

lemma inner_join_scores:
  "[r. (i, r) \<leftarrow> [(p, rating). (cid, iid', rating) \<leftarrow> R, iid' = p], i = g]
     = (if p = g then [rating. (cid, iid, rating) \<leftarrow> R, iid = g] else [])"
  by (induction R) auto

lemma inner_join_items:
  "map fst [(p, rating). (cid, iid', rating) \<leftarrow> R, iid' = p]
     = replicate (length [rating. (cid, iid, rating) \<leftarrow> R, iid = p]) p"
proof (induction R)
  case Nil
  then show ?case by simp
next
  case (Cons r R)
  obtain c i x where r: "r = (c, i, x)" by (cases r)
  show ?case using Cons unfolding r by simp
qed


lemma join_items:
  "set (map fst [(iid, rating). iid \<leftarrow> P, (cid, iid', rating) \<leftarrow> R, iid' = iid])
     = {i \<in> set P. [rating. (cid, iid, rating) \<leftarrow> R, iid = i] \<noteq> []}"
proof -
  define S where "S = (\<lambda>i. [rating. (cid, iid, rating) \<leftarrow> R, iid = i])"
  define I where "I = (\<lambda>p. map fst [(p, rating). (cid, iid', rating) \<leftarrow> R, iid' = p])"
  define J where "J = (\<lambda>P. map fst [(iid, rating). iid \<leftarrow> P, (cid, iid', rating) \<leftarrow> R, iid' = iid])"
  have I: "I p = replicate (length (S p)) p" for p
    unfolding I_def S_def by (rule inner_join_items)
  have J0: "J [] = []" unfolding J_def by simp
  have J1: "J (p # P) = I p @ J P" for p P unfolding J_def I_def by simp
  have "set (J P) = {i \<in> set P. S i \<noteq> []}"
  proof (induction P)
    case Nil
    then show ?case by (simp add: J0)
  next
    case (Cons p P)
    have "set (I p) = (if S p = [] then {} else {p})" by (simp add: I)
    with Cons show ?case by (auto simp: J1)
  qed
  then show ?thesis unfolding J_def S_def .
qed


lemma join_scores_repeated:
  "[r. (i, r) \<leftarrow> [(iid, rating). iid \<leftarrow> P, (cid, iid', rating) \<leftarrow> R, iid' = iid], i = g]
     = concat (replicate (count_list P g) [rating. (cid, iid, rating) \<leftarrow> R, iid = g])"
proof (induction P)
  case Nil
  then show ?case by simp
next
  case (Cons p P)
  have "[r. (i, r) \<leftarrow> [(iid, rating). iid \<leftarrow> p # P, (cid, iid', rating) \<leftarrow> R, iid' = iid], i = g]
      = [r. (i, r) \<leftarrow> [(p, rating). (cid, iid', rating) \<leftarrow> R, iid' = p], i = g]
        @ [r. (i, r) \<leftarrow> [(iid, rating). iid \<leftarrow> P, (cid, iid', rating) \<leftarrow> R, iid' = iid], i = g]"
    by simp
  also have "\<dots> = (if p = g then [rating. (cid, iid, rating) \<leftarrow> R, iid = g] else [])
        @ concat (replicate (count_list P g) [rating. (cid, iid, rating) \<leftarrow> R, iid = g])"
    by (simp only: inner_join_scores Cons.IH)
  finally show ?case by simp
qed

lemma mean_repeated:
  assumes "0 < m"
  shows "rat_of_int (sum_list (concat (replicate m xs))) / rat_of_nat (length (concat (replicate m xs)))
           = rat_of_int (sum_list xs) / rat_of_nat (length xs)"
proof -
  have s: "sum_list (concat (replicate m xs)) = int m * sum_list xs"
    by (induction m) (simp_all add: algebra_simps)
  have l: "length (concat (replicate m xs)) = m * length xs"
    by (induction m) simp_all
  have "rat_of_int (int m * sum_list xs) / rat_of_nat (m * length xs)
          = (rat_of_nat m * rat_of_int (sum_list xs)) / (rat_of_nat m * rat_of_nat (length xs))"
    by simp
  also have "\<dots> = rat_of_int (sum_list xs) / rat_of_nat (length xs)"
    using assms by (simp only: mult_divide_mult_cancel_left_if) simp
  finally show ?thesis unfolding s l .
qed

lemma ratingAverage_mean_rows:
  "ratingAverage t =
     order_by_desc (map (\<lambda>g. (g, review_mean t g))
       (remdups (map fst [(iid, rating). iid \<leftarrow> PopularItems t,
                            (cid, iid', rating) \<leftarrow> Review t, iid' = iid])))"
proof -
  define J where "J = [(iid, rating). iid \<leftarrow> PopularItems t, (cid, iid', rating) \<leftarrow> Review t, iid' = iid]"
  have sc: "rat_of_int (sum_list [r. (i, r) \<leftarrow> J, i = g]) / rat_of_nat (length [r. (i, r) \<leftarrow> J, i = g])
              = review_mean t g" if "g \<in> set (map fst J)" for g
  proof -
    from that have "g \<in> set (PopularItems t)" unfolding J_def join_items by simp
    then have "count_list (PopularItems t) g \<noteq> 0" by (simp only: count_list_0_iff) simp
    then have "0 < count_list (PopularItems t) g" by simp
    then show ?thesis
      unfolding J_def join_scores_repeated review_mean_def review_scores_def
      by (rule mean_repeated)
  qed
  have "map (\<lambda>g. (g, rat_of_int (sum_list [r. (i, r) \<leftarrow> J, i = g])
                      / rat_of_nat (length [r. (i, r) \<leftarrow> J, i = g]))) (remdups (map fst J))
      = map (\<lambda>g. (g, review_mean t g)) (remdups (map fst J))"
    by (rule map_cong[OF refl]) (simp only: set_remdups sc)
  then show ?thesis unfolding ratingAverage_def Let_def J_def by (simp only:)
qed

lemma set_ratingAverage_means:
  "set (ratingAverage t)
     = (\<lambda>i. (i, review_mean t i)) ` {i \<in> set (PopularItems t). review_scores t i \<noteq> []}"
  unfolding ratingAverage_mean_rows order_by_desc_def
  by (simp only: set_sort set_map set_remdups join_items[unfolded set_map] review_scores_def)

lemma distinct_ratingAverage: "distinct (map fst (ratingAverage t))"
proof -
  have "distinct (map fst (order_by_desc (map (\<lambda>g. (g, f g)) (remdups xs))))"
    for f :: "int \<Rightarrow> rat" and xs
  proof -
    have "map fst (map (\<lambda>g. (g, f g)) (remdups xs)) = remdups xs" by (simp add: comp_def)
    then have "distinct (map fst (map (\<lambda>g. (g, f g)) (remdups xs)))" by simp
    then show ?thesis unfolding order_by_desc_def by (simp only: distinct_map distinct_sort set_sort)
  qed
  then show ?thesis unfolding ratingAverage_def Let_def .
qed

lemma sorted_ratingAverage: "sorted_wrt (\<lambda>a b. snd b \<le> snd a) (ratingAverage t)"
proof -
  have "sorted (map (\<lambda>r. - snd r) (order_by_desc xs))" for xs :: "(int \<times> rat) list"
    unfolding order_by_desc_def by (rule sorted_sort_key)
  then have "sorted_wrt (\<lambda>a b. snd b \<le> snd a) (order_by_desc xs)" for xs :: "(int \<times> rat) list"
    by (simp add: sorted_map)
  then show ?thesis unfolding ratingAverage_def Let_def .
qed

lemma ratingAverage_unrated:
  assumes "\<forall>i \<in> set (PopularItems t). review_scores t i = []"
  shows "ratingAverage t = []"
proof -
  have "set (map fst [(iid, rating). iid \<leftarrow> PopularItems t,
                        (cid, iid', rating) \<leftarrow> Review t, iid' = iid]) = {}"
    unfolding join_items using assms by (auto simp: review_scores_def)
  then have e: "[(iid, rating). iid \<leftarrow> PopularItems t, (cid, iid', rating) \<leftarrow> Review t, iid' = iid] = []"
    by (simp only: set_empty map_is_Nil_conv)
  show ?thesis unfolding ratingAverage_def Let_def by (simp only: e) (simp add: order_by_desc_def)
qed

lemma shop_means:
  "review_mean shop_relations 20 = 4" "review_mean shop_relations 30 = 13 / 3"
  "curator_mean shop_relations 20 = 9 / 2" "curator_mean shop_relations 30 = 3"
  by code_simp+

text \<open>
  C5 as stated fails: the ranking averages the ratings of every customer in
  \<open>Review\<close>, not the curators' ratings. In the example the curators rate item 20
  above item 30, the customers 6 and 9 lift the mean of item 30, and the call
  returns item 30 and not item 20.
\<close>

theorem generic_ranking_by_curator_mean_counterexample:
  "fst (recommend_generic 2 shop) = Inr (Some [10, 30])
   \<and> curator_mean (rels shop) 30 < curator_mean (rels shop) 20
   \<and> review_mean (rels shop) 20 < review_mean (rels shop) 30
   \<and> ratingAverage (rels shop) = [(10, 14 / 3), (30, 13 / 3), (20, 4)]"
proof -
  have "recommend_generic 2 shop = (Inr (Some [10, 30]), shop)"
    using recommend_generic_healthy[of shop 2]
    by (simp add: shop_fields shop_popular shop_ratingAverage shop_top2)
  then show ?thesis by (simp add: shop_fields shop_means shop_ratingAverage)
qed

text \<open>
  C5, amended. With more than \<open>k\<close> popular items, on a store
  that serves every statement and holds no view \<^verbatim>\<open>ratingAverage\<close>, for \<open>k > 0\<close>:
  \<^verbatim>\<open>recommend_generic\<close> returns the item IDs of the Top-K selection (ties broken
  by item ID ascending) over the ranking that holds one row for every popular item
  that has at least one rating in \<open>Review\<close>, with the mean of all its ratings in
  \<open>Review\<close>, by any customer, as score, ranked by that mean descending. A popular
  item with no rating has no row.
\<close>

theorem generic_ranking_by_review_mean:
  assumes "fails_after s = None" and "0 < k" and "''ratingAverage'' \<notin> set (views s)"
    and "k < int (length (PopularItems (rels s)))"
  shows "recommend_generic k s =
           (Inr (Some (map fst (top_k_selection (nat k) (ratingAverage (rels s))))), s)
       \<and> set (ratingAverage (rels s))
           = (\<lambda>i. (i, review_mean (rels s) i))
               ` {i \<in> set (PopularItems (rels s)). review_scores (rels s) i \<noteq> []}
       \<and> distinct (map fst (ratingAverage (rels s)))
       \<and> sorted_wrt (\<lambda>a b. snd b \<le> snd a) (ratingAverage (rels s))"
  using recommend_generic_healthy[OF assms(1,3,2)] assms(4)
    set_ratingAverage_means[of "rels s"] distinct_ratingAverage[of "rels s"]
    sorted_ratingAverage[of "rels s"]
  by simp

theorem generic_ranking_by_review_mean_witness:
  "fails_after shop = None \<and> (0::int) < 2 \<and> ''ratingAverage'' \<notin> set (views shop)
   \<and> 2 < int (length (PopularItems (rels shop)))
   \<and> recommend_generic 2 shop = (Inr (Some [10, 30]), shop)
   \<and> ratingAverage (rels shop) = [(10, 14 / 3), (30, 13 / 3), (20, 4)]
   \<and> review_mean (rels shop) 20 = 4 \<and> review_mean (rels shop) 30 = 13 / 3"
proof -
  have h: "fails_after shop = None" "(0::int) < 2" "''ratingAverage'' \<notin> set (views shop)"
    "2 < int (length (PopularItems (rels shop)))"
    by (simp_all add: shop_fields shop_popular)
  from generic_ranking_by_review_mean[OF h]
  have "recommend_generic 2 shop = (Inr (Some [10, 30]), shop)"
    by (simp add: shop_fields shop_ratingAverage shop_top2)
  with h show ?thesis by (simp add: shop_fields shop_ratingAverage shop_means)
qed

text \<open>
  C6 as stated fails where the popular items are at most \<open>k\<close>: the call returns all
  of them, rated or not.
\<close>

theorem generic_unrated_small_pool_counterexample:
  "Review (rels unrated_shop) = []
   \<and> PopularItems (rels unrated_shop) = [10]
   \<and> fst (recommend_generic 1 unrated_shop) = Inr (Some [10])
   \<and> fst (recommend_generic 1 unrated_shop) \<noteq> Inr (Some [])"
  by (simp add: unrated_generic unrated_fields)

text \<open>
  C6, amended. On a store that serves every statement and holds no view
  \<^verbatim>\<open>ratingAverage\<close>, for \<open>k > 0\<close>: with more than \<open>k\<close> popular items, none of
  them rated, \<^verbatim>\<open>recommend_generic\<close> returns the empty list; with at most \<open>k\<close>
  popular items it returns all of them, whether rated or not.
\<close>

theorem generic_unrated_large_pool_empty:
  assumes "fails_after s = None" and "0 < k" and "''ratingAverage'' \<notin> set (views s)"
  shows "(k < int (length (PopularItems (rels s)))
            \<and> (\<forall>i \<in> set (PopularItems (rels s)). review_scores (rels s) i = [])
          \<longrightarrow> recommend_generic k s = (Inr (Some []), s))
       \<and> (int (length (PopularItems (rels s))) \<le> k
          \<longrightarrow> recommend_generic k s = (Inr (Some (PopularItems (rels s))), s))"
  using recommend_generic_healthy[OF assms(1,3,2)]
  by (auto simp: ratingAverage_unrated top_k_selection_def)

theorem generic_unrated_large_pool_empty_witness:
  "fails_after unrated_pair = None \<and> (0::int) < 1 \<and> ''ratingAverage'' \<notin> set (views unrated_pair)
   \<and> 1 < int (length (PopularItems (rels unrated_pair)))
   \<and> review_scores (rels unrated_pair) 10 = [] \<and> review_scores (rels unrated_pair) 20 = []
   \<and> recommend_generic 1 unrated_pair = (Inr (Some []), unrated_pair)
   \<and> recommend_generic 2 unrated_pair = (Inr (Some [10, 20]), unrated_pair)"
proof -
  have h: "fails_after unrated_pair = None" "''ratingAverage'' \<notin> set (views unrated_pair)"
    by (simp_all add: unrated_pair_def unrated_fields)
  have p: "PopularItems (rels unrated_pair) = [10, 20]"
    by (simp add: unrated_pair_def)
  have r: "review_scores (rels unrated_pair) 10 = []" "review_scores (rels unrated_pair) 20 = []"
    by (simp_all add: unrated_pair_def unrated_fields review_scores_def)
  have k1: "(0::int) < 1" and k2: "(0::int) < 2" by simp_all
  have a: "recommend_generic 1 unrated_pair = (Inr (Some []), unrated_pair)"
    using generic_unrated_large_pool_empty[OF h(1) k1 h(2)] r by (simp add: p)
  have b: "recommend_generic 2 unrated_pair = (Inr (Some [10, 20]), unrated_pair)"
    using generic_unrated_large_pool_empty[OF h(1) k2 h(2)] by (simp add: p)
  show ?thesis using h r a b by (simp add: p)
qed

section \<open>repopulate and the foreign-key constraint\<close>

lemma serve_eq: "serve s = (if fails_after s = Some 0 then None else Some (tick s))"
  by (cases s) (auto simp: serve_def tick_def split: option.splits nat.splits)

lemma tick_fields [simp]:
  "rels (tick s) = rels s" "views (tick s) = views s" "constraints (tick s) = constraints s"
  by (simp_all add: tick_def)

lemma bind_execute:
  "bind (execute stmt) f s =
     (if fails_after s = Some 0 then (Inl PgError, s) else bind stmt f (tick s))"
  by (simp add: bind_def execute_def serve_eq)

lemma execute_eq:
  "execute stmt s = (if fails_after s = Some 0 then (Inl PgError, s) else stmt (tick s))"
  by (simp add: execute_def serve_eq)

lemma popular_frame [simp]:
  "popular (t\<lparr>PopularItems := x\<rparr>) = popular t"
  "popular (t\<lparr>DefinitiveRatings := y\<rparr>) = popular t"
  by (simp_all add: popular_def totalNumber_def)

lemma definitive_frame [simp]:
  "definitive (t\<lparr>DefinitiveRatings := y\<rparr>) = definitive t"
  "definitive (t\<lparr>DefinitiveRatings := y, PopularItems := x\<rparr>) = definitive (t\<lparr>PopularItems := x\<rparr>)"
  by (simp_all add: definitive_def cong: if_cong)

lemmas statement_defs = update_def create_view_def drop_view_if_exists_def
  drop_constraint_def commit_def select_def select_limit_def

lemma repopulate_body_success:
  assumes "repopulate_body s = (Inr u, s')"
  shows "''definitiveratings_cid_fkey'' \<in> set (constraints s)
       \<and> constraints s' = removeAll ''definitiveratings_cid_fkey'' (constraints s)
       \<and> PopularItems (rels s') = popular (rels s)
       \<and> DefinitiveRatings (rels s') = definitive (rels s')"
  using assms unfolding repopulate_body_def
  by (simp add: bind_def execute_eq statement_defs split: if_splits) auto

lemma repopulate_fails_without_constraint:
  assumes "''definitiveratings_cid_fkey'' \<notin> set (constraints s)"
  shows "fst (repopulate_body s) = Inl PgError"
  using assms unfolding repopulate_body_def
  by (simp add: bind_def execute_eq statement_defs)


lemma repopulate_success_body:
  assumes "repopulate s = (Inr 0, s')"
  shows "repopulate_body s = (Inr (), s')"
  using assms unfolding repopulate_def except_pg_def
  by (auto simp: bind_def ret_def split: prod.splits sum.splits exn.splits)

lemma repopulate_without_constraint:
  assumes "''definitiveratings_cid_fkey'' \<notin> set (constraints s)"
  shows "fst (repopulate s) = Inr (- 1)"
  using repopulate_fails_without_constraint[OF assms]
  unfolding repopulate_def except_pg_def
  by (auto simp: bind_def ret_def split: prod.splits sum.splits exn.splits)

text \<open>
  C10 as stated fails in its last clause. The statement
  \<^verbatim>\<open>ALTER TABLE ... DROP CONSTRAINT\<close> has no \<^verbatim>\<open>IF EXISTS\<close>: it raises when the
  constraint is gone. In the example the first run succeeds with the constraint in
  place, and the second run, which finds it gone, returns \<open>-1\<close>.
\<close>

theorem repopulate_second_run_counterexample:
  "''definitiveratings_cid_fkey'' \<in> set (constraints shop)
   \<and> fst (repopulate shop) = Inr 0
   \<and> ''definitiveratings_cid_fkey'' \<notin> set (constraints (snd (repopulate shop)))
   \<and> fst (repopulate (snd (repopulate shop))) = Inr (- 1)"
  by code_simp

text \<open>
  C10, amended. Every successful call of \<^verbatim>\<open>repopulate\<close> starts with the constraint
  \<^verbatim>\<open>definitiveratings_cid_fkey\<close> in place and ends without it (it is dropped and not
  restored), with \<open>PopularItems\<close> and \<open>DefinitiveRatings\<close> holding the rows of the
  views \<^verbatim>\<open>popular\<close> and \<^verbatim>\<open>definitive\<close>; a run that starts where a successful run
  ended returns \<open>-1\<close>.
\<close>

theorem repopulate_drops_constraint:
  assumes "repopulate s = (Inr 0, s')"
  shows "''definitiveratings_cid_fkey'' \<in> set (constraints s)
       \<and> ''definitiveratings_cid_fkey'' \<notin> set (constraints s')
       \<and> constraints s' = removeAll ''definitiveratings_cid_fkey'' (constraints s)
       \<and> PopularItems (rels s') = popular (rels s)
       \<and> DefinitiveRatings (rels s') = definitive (rels s')
       \<and> fst (repopulate s') = Inr (- 1)"
proof -
  note b = repopulate_body_success[OF repopulate_success_body[OF assms]]
  then have gone: "''definitiveratings_cid_fkey'' \<notin> set (constraints s')" by simp
  from b gone repopulate_without_constraint[OF gone] show ?thesis by simp
qed

theorem repopulate_drops_constraint_witness:
  "repopulate shop = (Inr 0, snd (repopulate shop))
   \<and> ''definitiveratings_cid_fkey'' \<in> set (constraints shop)
   \<and> constraints (snd (repopulate shop)) = []
   \<and> PopularItems (rels (snd (repopulate shop))) = [10]
   \<and> DefinitiveRatings (rels (snd (repopulate shop))) = [(7, 10, 5), (8, 10, 4)]
   \<and> fst (repopulate (snd (repopulate shop))) = Inr (- 1)"
proof -
  have r: "fst (repopulate shop) = Inr 0" by code_simp
  then have h: "repopulate shop = (Inr 0, snd (repopulate shop))"
    by (metis prod.collapse)
  have c: "constraints shop = [''definitiveratings_cid_fkey'']" by (simp add: shop_fields)
  have p: "popular (rels shop) = [10]" by code_simp
  have d: "definitive ((rels shop)\<lparr>PopularItems := [10]\<rparr>) = [(7, 10, 5), (8, 10, 4)]" by code_simp
  have q: "DefinitiveRatings (rels (snd (repopulate shop))) = [(7, 10, 5), (8, 10, 4)]" by code_simp
  from repopulate_drops_constraint[OF h] h c p q show ?thesis by simp
qed

section \<open>Database errors\<close>

lemma except_pg_caught:
  "fst (m s) = Inl PgError \<Longrightarrow> except_pg m (ret x) s = (Inr x, snd (m s))"
  unfolding except_pg_def ret_def by (auto split: prod.splits sum.splits exn.splits)

lemma except_pg_not_pg: "fst (except_pg m (ret x) s) \<noteq> Inl PgError"
  unfolding except_pg_def ret_def by (auto split: prod.splits sum.splits exn.splits)

lemma recommend_generic_body_outcome:
  "fst (recommend_generic_body k s) = Inl PgError \<or> (\<exists>r. fst (recommend_generic_body k s) = Inr r)"
  unfolding recommend_generic_body_def cursor_equals_empty_list_def
  by (simp add: bind_def execute_eq statement_defs ret_def)

lemma recommend_generic_returns: "\<exists>r. fst (recommend_generic k s) = Inr r"
  using recommend_generic_body_outcome[of k s]
  unfolding recommend_generic_def except_pg_def
  by (auto simp: bind_def ret_def split: prod.splits sum.splits exn.splits)

text \<open>
  C8. When a statement of \<^verbatim>\<open>recommend_generic\<close> or of \<^verbatim>\<open>recommend\<close> raises
  \<^verbatim>\<open>psycopg2.Error\<close>, the call returns \<open>None\<close>, in the store the failure left; so
  it does when the connection is already lost at the call. \<^verbatim>\<open>recommend_generic\<close>
  always returns, and \<^verbatim>\<open>recommend\<close> never raises \<^verbatim>\<open>psycopg2.Error\<close>. The value
  \<open>None\<close> is not the empty list.
\<close>

theorem database_errors_return_None:
  "(fst (recommend_generic_body k s) = Inl PgError \<longrightarrow>
      recommend_generic k s = (Inr None, snd (recommend_generic_body k s)))
   \<and> (fst (recommend_body cust k s) = Inl PgError \<longrightarrow>
      recommend cust k s = (Inr None, snd (recommend_body cust k s)))
   \<and> (fails_after s = Some 0 \<longrightarrow>
      recommend_generic k s = (Inr None, s) \<and> recommend cust k s = (Inr None, s))
   \<and> (\<exists>r. fst (recommend_generic k s) = Inr r)
   \<and> fst (recommend cust k s) \<noteq> Inl PgError
   \<and> (Inr None :: exn + int list option) \<noteq> Inr (Some [])"
proof (intro conjI impI)
  assume a: "fst (recommend_generic_body k s) = Inl PgError"
  then have "fst (bind (recommend_generic_body k) (\<lambda>results. ret (Some results)) s) = Inl PgError"
    and "snd (bind (recommend_generic_body k) (\<lambda>results. ret (Some results)) s)
           = snd (recommend_generic_body k s)"
    by (auto simp: bind_def split: prod.splits sum.splits)
  then show "recommend_generic k s = (Inr None, snd (recommend_generic_body k s))"
    unfolding recommend_generic_def using except_pg_caught by metis
next
  assume "fst (recommend_body cust k s) = Inl PgError"
  then show "recommend cust k s = (Inr None, snd (recommend_body cust k s))"
    unfolding recommend_def by (rule except_pg_caught)
next
  assume z: "fails_after s = Some 0"
  then have "recommend_generic_body k s = (Inl PgError, s)"
    unfolding recommend_generic_body_def by (simp add: bind_def execute_eq statement_defs)
  then show "recommend_generic k s = (Inr None, s)"
    unfolding recommend_generic_def except_pg_def by (simp add: bind_def ret_def)
next
  assume z: "fails_after s = Some 0"
  then have "recommend_body cust k s = (Inl PgError, s)"
    unfolding recommend_body_def by (simp add: bind_def execute_eq statement_defs)
  then show "recommend cust k s = (Inr None, s)"
    unfolding recommend_def except_pg_def by (simp add: ret_def)
next
  show "\<exists>r. fst (recommend_generic k s) = Inr r" by (rule recommend_generic_returns)
next
  show "fst (recommend cust k s) \<noteq> Inl PgError"
    unfolding recommend_def by (rule except_pg_not_pg)
next
  show "(Inr None :: exn + int list option) \<noteq> Inr (Some [])" by simp
qed

theorem database_errors_return_None_witness:
  "fst (recommend_generic_body 2 dying_shop) = Inl PgError
   \<and> fst (recommend_generic 2 dying_shop) = Inr None
   \<and> fst (recommend_body 5 1 dying_shop) = Inl PgError
   \<and> fst (recommend 5 1 dying_shop) = Inr None
   \<and> fails_after (dying_shop\<lparr>fails_after := Some 0\<rparr>) = Some 0
   \<and> fst (recommend 5 1 (dying_shop\<lparr>fails_after := Some 0\<rparr>)) = Inr None
   \<and> fst (recommend_generic 2 shop) = Inr (Some [10, 30])"
proof -
  have g: "fst (recommend_generic_body 2 dying_shop) = Inl PgError" by code_simp
  have b: "fst (recommend_body 5 1 dying_shop) = Inl PgError" by code_simp
  have z: "fails_after (dying_shop\<lparr>fails_after := Some 0\<rparr>) = Some 0" by simp
  have h: "fst (recommend_generic 2 shop) = Inr (Some [10, 30])" by code_simp
  note t = database_errors_return_None[of 2 dying_shop 5]
  note u = database_errors_return_None[of 1 dying_shop 5]
  note w = database_errors_return_None[of 1 "dying_shop\<lparr>fails_after := Some 0\<rparr>" 5]
  from t g have 1: "fst (recommend_generic 2 dying_shop) = Inr None" by simp
  from u b have 2: "fst (recommend 5 1 dying_shop) = Inr None" by simp
  from w z have 3: "fst (recommend 5 1 (dying_shop\<lparr>fails_after := Some 0\<rparr>)) = Inr None" by simp
  from g b z h 1 2 3 show ?thesis by simp
qed

section \<open>The views an error leaves behind\<close>

lemma keeps_leaves: "keeps v m \<Longrightarrow> leaves v m"
  by (simp add: keeps_def leaves_def)

lemma keeps_bind: "keeps v m \<Longrightarrow> (\<And>x. keeps v (f x)) \<Longrightarrow> keeps v (bind m f)"
  unfolding keeps_def bind_def
  by (auto split: prod.splits sum.splits)





lemma keeps_ret: "keeps v (ret x)"
  by (simp add: keeps_def ret_def)

























section \<open>At most k recommendations\<close>

lemma heal_fields [simp]:
  "rels (heal s) = rels s" "views (heal s) = views s" "constraints (heal s) = constraints s"
  "fails_after (heal s) = None"
  by (simp_all add: heal_def)

lemma heal_tick [simp]: "heal (tick s) = heal s"
  by (simp add: heal_def tick_def)

lemma tick_heal [simp]: "tick (heal s) = heal s"
  by (simp add: heal_def tick_def)

lemma heal_views [simp]: "heal (s\<lparr>views := v\<rparr>) = (heal s)\<lparr>views := v\<rparr>"
  by (simp add: heal_def)

lemma replays_replays_some: "replays m \<Longrightarrow> replays_some m"
  by (simp add: replays_def replays_some_def)

lemma replays_bind: "replays m \<Longrightarrow> (\<And>x. replays (f x)) \<Longrightarrow> replays (bind m f)"
  unfolding replays_def bind_def by (auto split: prod.splits sum.splits)

lemma replays_some_bind: "replays m \<Longrightarrow> (\<And>x. replays_some (f x)) \<Longrightarrow> replays_some (bind m f)"
  unfolding replays_def replays_some_def bind_def by (auto split: prod.splits sum.splits)

lemma replays_if: "replays a \<Longrightarrow> replays b \<Longrightarrow> replays (if c then a else b)"
  by simp

lemma replays_some_if: "replays_some a \<Longrightarrow> replays_some b \<Longrightarrow> replays_some (if c then a else b)"
  by simp

lemma replays_ret: "replays (ret x)"
  by (simp add: replays_def ret_def)

lemma replays_some_ret: "replays_some (ret x)"
  by (simp add: replays_some_def ret_def)

lemma replays_lift: "replays (lift r)"
  by (simp add: replays_def lift_def)

lemma replays_select: "replays (select q)"
  by (auto simp: replays_def select_def execute_eq split: if_splits)

lemma replays_select_limit: "replays (select_limit k q)"
  by (auto simp: replays_def select_limit_def execute_eq split: if_splits)

lemma replays_create_view: "replays (create_view v)"
  by (auto simp: replays_def create_view_def execute_eq split: if_splits)

lemma replays_drop_view: "replays (drop_view_if_exists v)"
  by (auto simp: replays_def drop_view_if_exists_def execute_eq split: if_splits)

lemma except_pg_Some:
  "except_pg m (ret None) s = (Inr (Some x), s') \<longleftrightarrow> m s = (Inr (Some x), s')"
  unfolding except_pg_def ret_def by (auto split: prod.splits sum.splits exn.splits)

lemma replays_some_except: "replays_some m \<Longrightarrow> replays_some (except_pg m (ret None))"
  unfolding replays_some_def by (simp add: except_pg_Some)

lemmas replays_statements = replays_bind replays_if replays_ret replays_lift replays_select
  replays_select_limit replays_create_view replays_drop_view

lemma replays_recommend_generic_body: "replays (recommend_generic_body k)"
  unfolding recommend_generic_body_def by (intro replays_statements)

lemma replays_some_recommend_generic: "replays_some (recommend_generic k)"
  unfolding recommend_generic_def
  by (intro replays_some_except replays_replays_some replays_bind
      replays_recommend_generic_body replays_ret)

lemma replays_drop_recommend_views: "replays drop_recommend_views"
  unfolding drop_recommend_views_def by (intro replays_statements)

lemma replays_some_recommend: "replays_some (recommend cust k)"
  unfolding recommend_def recommend_body_def Let_def
  by (intro replays_some_except replays_some_bind replays_some_if replays_some_ret
      replays_some_recommend_generic replays_drop_recommend_views replays_select
      replays_select_limit replays_create_view replays_drop_view replays_lift)


lemma bind_create_view_exists:
  "fails_after s = None \<Longrightarrow> v \<in> set (views s) \<Longrightarrow> bind (create_view v) f s = (Inl PgError, s)"
  by (simp add: bind_def create_view_def execute_def serve_healthy)

lemma recommend_generic_healthy_result:
  assumes h: "fails_after s = None" and k: "0 < k"
    and r: "recommend_generic k s = (Inr (Some xs), s')"
  shows "xs = (if int (length (PopularItems (rels s))) \<le> k then PopularItems (rels s)
               else map fst (top_k_selection (nat k) (ratingAverage (rels s))))"
proof (cases "int (length (PopularItems (rels s))) \<le> k")
  case True
  then have "recommend_generic_body k s
               = (Inr (PopularItems (rels s)), s\<lparr>views := removeAll ''ratingAverage'' (views s)\<rparr>)"
    using h unfolding recommend_generic_body_def by (simp add: healthy_binds ret_def)
  then show ?thesis using r True
    unfolding recommend_generic_def by (simp add: except_pg_Some bind_def ret_def)
next
  case False
  show ?thesis
  proof (cases "''ratingAverage'' \<in> set (views s)")
    case True
    with False h have "recommend_generic_body k s = (Inl PgError, s)"
      unfolding recommend_generic_body_def by (simp add: healthy_binds bind_create_view_exists)
    then show ?thesis using r
      unfolding recommend_generic_def by (simp add: except_pg_Some bind_def)
  next
    case v: False
    from recommend_generic_healthy[OF h v k] r False show ?thesis by simp
  qed
qed

lemma recommend_generic_result:
  assumes k: "0 < k" and r: "recommend_generic k s = (Inr (Some xs), s')"
  shows "xs = (if int (length (PopularItems (rels s))) \<le> k then PopularItems (rels s)
               else map fst (top_k_selection (nat k) (ratingAverage (rels s))))"
proof -
  from replays_some_recommend_generic r
  have "recommend_generic k (heal s) = (Inr (Some xs), heal s')"
    unfolding replays_some_def by blast
  from recommend_generic_healthy_result[OF heal_fields(4) k this, unfolded heal_fields]
  show ?thesis .
qed

lemma recommend_body_raises:
  assumes "recommend_body cust k s = (Inl e, s1)" and "recommend cust k s = (Inr (Some xs), s')"
  shows False
  using assms unfolding recommend_def by (simp add: except_pg_Some)

lemma recommend_healthy_result:
  assumes h: "fails_after s = None" and k: "0 < k"
    and r: "recommend cust k s = (Inr (Some xs), s')"
  shows "\<exists>c. similar_curator cust (rels s) = Inr c
           \<and> xs = (if c = None \<or> itemLeft cust c (rels s) = []
                   then (if int (length (PopularItems (rels s))) \<le> k then PopularItems (rels s)
                         else map fst (top_k_selection (nat k) (ratingAverage (rels s))))
                   else map fst (top_k_selection (nat k) (itemLeft cust c (rels s))))"
proof -
  let ?t0 = "new_table (nat (int (length (remdups (map fst (DefinitiveRatings (rels s))))) + 1))
            (nat (int (length (remdups (map (\<lambda>r. fst (snd r)) (DefinitiveRatings (rels s)))))))"
  let ?s1 = "s\<lparr>views := ''custRating'' # views s\<rparr>"
  have h1: "fails_after ?s1 = None" using h by simp
  have v1: "''custRating'' \<notin> set (views s)"
  proof
    assume "''custRating'' \<in> set (views s)"
    then have "recommend_body cust k s = (Inl PgError, s)"
      using h unfolding recommend_body_def by (simp add: healthy_binds bind_create_view_exists Let_def)
    from recommend_body_raises[OF this r] show False .
  qed
  have pre: "recommend_body cust k s = (Inl e, ?s1)" if "similar_curator cust (rels s) = Inl e" for e
    using that h v1 unfolding recommend_body_def cursor_is_None_def
    by (auto simp: healthy_binds bind_lift_Inr bind_lift_Inl Let_def similar_curator_def
        ratings_table_def split: sum.splits)
  obtain c where c: "similar_curator cust (rels s) = Inr c"
  proof (cases "similar_curator cust (rels s)")
    case (Inl e)
    from recommend_body_raises[OF pre[OF Inl] r] show ?thesis ..
  next
    case (Inr c)
    then show ?thesis by (rule that)
  qed
  from c obtain t1 t2 where
    t1: "set_ratings ?t0 (custRating cust (rels s)) = Inr t1"
    and t2: "set_ratings t1 (DefinitiveRatings (rels s)) = Inr t2"
    and fc: "find_similar_curator t2 (remdups (map fst (DefinitiveRatings (rels s)))) cust = Inr c"
    by (auto simp: similar_curator_def ratings_table_def Let_def split: sum.splits)
  have fail: "\<exists>s1. recommend_body cust k s = (Inl PgError, s1)"
    if "''custIID'' \<in> set (views s) \<or> ''itemLeft'' \<in> set (views s) \<or> ''result'' \<in> set (views s)"
  proof (cases "''custIID'' \<in> set (views s)")
    case True
    then show ?thesis
      using h v1 t1 t2 fc unfolding recommend_body_def cursor_is_None_def
      by (simp add: healthy_binds bind_lift_Inr bind_create_view_exists Let_def)
  next
    case n2: False
    show ?thesis
    proof (cases "''itemLeft'' \<in> set (views s)")
      case True
      then show ?thesis
        using h v1 n2 t1 t2 fc unfolding recommend_body_def cursor_is_None_def
        by (simp add: healthy_binds bind_lift_Inr bind_create_view_exists Let_def)
    next
      case n3: False
      with that n2 have "''result'' \<in> set (views s)" by simp
      then show ?thesis
        using h v1 n2 n3 t1 t2 fc k unfolding recommend_body_def cursor_is_None_def
        by (simp add: healthy_binds bind_lift_Inr bind_create_view_exists Let_def)
    qed
  qed
  have v: "''custIID'' \<notin> set (views s)" "''itemLeft'' \<notin> set (views s)" "''result'' \<notin> set (views s)"
    using fail recommend_body_raises[OF _ r] by blast+
  note rh = recommend_healthy[OF h v1 v k c]
  show ?thesis
  proof (cases "c = None \<or> itemLeft cust c (rels s) = []")
    case True
    with rh r have "recommend_generic k s = (Inr (Some xs), s')" by simp
    from recommend_generic_healthy_result[OF h k this] c True show ?thesis by auto
  next
    case False
    with rh r c show ?thesis by auto
  qed
qed

lemma recommend_result:
  assumes k: "0 < k" and r: "recommend cust k s = (Inr (Some xs), s')"
  shows "\<exists>c. similar_curator cust (rels s) = Inr c
           \<and> xs = (if c = None \<or> itemLeft cust c (rels s) = []
                   then (if int (length (PopularItems (rels s))) \<le> k then PopularItems (rels s)
                         else map fst (top_k_selection (nat k) (ratingAverage (rels s))))
                   else map fst (top_k_selection (nat k) (itemLeft cust c (rels s))))"
proof -
  from replays_some_recommend r
  have "recommend cust k (heal s) = (Inr (Some xs), heal s')"
    unfolding replays_some_def by blast
  from recommend_healthy_result[OF heal_fields(4) k this, unfolded heal_fields]
  show ?thesis .
qed


lemma items_ratingAverage:
  "set (map fst (ratingAverage t))
     = set [i \<leftarrow> PopularItems t. review_scores t i \<noteq> []]"
proof -
  have "set (map fst (order_by_desc (map (\<lambda>g. (g, f g)) (remdups xs)))) = set xs"
    for f :: "int \<Rightarrow> rat" and xs
    unfolding order_by_desc_def by (simp add: image_image)
  then have "set (map fst (ratingAverage t))
      = set (map fst [(iid, rating). iid \<leftarrow> PopularItems t, (cid, iid', rating) \<leftarrow> Review t, iid' = iid])"
    unfolding ratingAverage_def Let_def .
  also have "\<dots> = {i \<in> set (PopularItems t). review_scores t i \<noteq> []}"
    unfolding join_items review_scores_def ..
  finally show ?thesis by simp
qed

lemma card_rated_popular:
  "card (set [i \<leftarrow> PopularItems t. review_scores t i \<noteq> []]) \<le> length (ratingAverage t)"
proof -
  have "card (set (map fst (ratingAverage t))) \<le> length (map fst (ratingAverage t))"
    by (rule card_length)
  then show ?thesis unfolding items_ratingAverage by simp
qed

lemma generic_list_length:
  assumes k: "0 < k"
    and xs: "xs = (if int (length (PopularItems t)) \<le> k then PopularItems t
                   else map fst (top_k_selection (nat k) (ratingAverage t)))"
  shows "length xs \<le> nat k \<and> (length xs < nat k \<longrightarrow> card (generic_candidates k t) < nat k)"
proof (cases "int (length (PopularItems t)) \<le> k")
  case True
  then have x: "xs = PopularItems t" and g: "generic_candidates k t = set (PopularItems t)"
    using xs by (simp_all add: generic_candidates_def)
  have "card (set (PopularItems t)) \<le> length (PopularItems t)" by (rule card_length)
  with True x g show ?thesis by auto
next
  case False
  then have x: "xs = map fst (top_k_selection (nat k) (ratingAverage t))"
    and g: "generic_candidates k t = set [i \<leftarrow> PopularItems t. review_scores t i \<noteq> []]"
    using xs by (simp_all add: generic_candidates_def)
  have "length xs = min (nat k) (length (ratingAverage t))"
    unfolding x using k by (simp add: length_top_k_selection)
  with card_rated_popular[of t] g show ?thesis by auto
qed

text \<open>
  C4. For \<open>k > 0\<close> and every store, with any views and any health of the connection:
  a list that \<^verbatim>\<open>recommend_generic\<close> or \<^verbatim>\<open>recommend\<close> returns has at most \<open>k\<close>
  entries, and fewer than \<open>k\<close> only when the distinct qualifying candidate items of the
  call are fewer than \<open>k\<close>.
\<close>

theorem recommendations_at_most_k:
  assumes "0 < k"
  shows "(recommend_generic k s = (Inr (Some xs), s') \<longrightarrow>
            length xs \<le> nat k
            \<and> (length xs < nat k \<longrightarrow> card (generic_candidates k (rels s)) < nat k))
       \<and> (recommend cust k s = (Inr (Some ys), s'') \<longrightarrow>
            length ys \<le> nat k
            \<and> (length ys < nat k \<longrightarrow> card (recommend_candidates cust k (rels s)) < nat k))"
proof (intro conjI impI)
  assume "recommend_generic k s = (Inr (Some xs), s')"
  from generic_list_length[OF assms recommend_generic_result[OF assms this]]
  show "length xs \<le> nat k"
    and "length xs < nat k \<Longrightarrow> card (generic_candidates k (rels s)) < nat k"
    by simp_all
next
  assume r: "recommend cust k s = (Inr (Some ys), s'')"
  from recommend_result[OF assms r] obtain c where
    c: "similar_curator cust (rels s) = Inr c"
    and ys: "ys = (if c = None \<or> itemLeft cust c (rels s) = []
                   then (if int (length (PopularItems (rels s))) \<le> k then PopularItems (rels s)
                         else map fst (top_k_selection (nat k) (ratingAverage (rels s))))
                   else map fst (top_k_selection (nat k) (itemLeft cust c (rels s))))"
    by blast
  have "length ys \<le> nat k
      \<and> (length ys < nat k \<longrightarrow> card (recommend_candidates cust k (rels s)) < nat k)"
  proof (cases "c = None \<or> itemLeft cust c (rels s) = []")
    case True
    then have "recommend_candidates cust k (rels s) = generic_candidates k (rels s)"
      using c by (cases c) (auto simp: recommend_candidates_def)
    moreover from True ys
    have "ys = (if int (length (PopularItems (rels s))) \<le> k then PopularItems (rels s)
                else map fst (top_k_selection (nat k) (ratingAverage (rels s))))"
      by simp
    ultimately show ?thesis using generic_list_length[OF assms] by simp
  next
    case False
    then obtain d where d: "c = Some d" by auto
    let ?rows = "itemLeft cust c (rels s)"
    from False c d have rc: "recommend_candidates cust k (rels s) = fst ` set ?rows"
      by (simp add: recommend_candidates_def)
    note ys[unfolded if_not_P[OF False]]
    then have "length ys = min (nat k) (length ?rows)"
      using assms by (simp add: length_top_k_selection)
    moreover have "card (fst ` set ?rows) \<le> length ?rows"
      by (metis card_length length_map list.set_map)
    ultimately show ?thesis using rc by auto
  qed
  then show "length ys \<le> nat k"
    and "length ys < nat k \<Longrightarrow> card (recommend_candidates cust k (rels s)) < nat k"
    by simp_all
qed

theorem recommendations_at_most_k_witness:
  "(0::int) < 3
   \<and> recommend_generic 3 unrated_pair = (Inr (Some [10, 20]), unrated_pair)
   \<and> length [10, 20 :: int] < nat 3
   \<and> card (generic_candidates 3 (rels unrated_pair)) = 2
   \<and> recommend 5 3 shop = (Inr (Some [20, 30]), shop)
   \<and> length [20, 30 :: int] < nat 3
   \<and> card (recommend_candidates 5 3 (rels shop)) = 2"
proof -
  have k: "(0::int) < 3" by simp
  have g: "recommend_generic 3 unrated_pair = (Inr (Some [10, 20]), unrated_pair)" by code_simp
  have r: "recommend 5 3 shop = (Inr (Some [20, 30]), shop)" by code_simp
  have cg: "card (generic_candidates 3 (rels unrated_pair)) \<le> 2" by code_simp
  have cr: "card (recommend_candidates 5 3 (rels shop)) = 2" by code_simp
  have cg2: "card (generic_candidates 3 (rels unrated_pair)) = 2" by code_simp
  note t = recommendations_at_most_k[OF k, where s = unrated_pair and xs = "[10, 20]"
      and s' = unrated_pair]
  note u = recommendations_at_most_k[OF k, where s = shop and cust = 5 and ys = "[20, 30]"
      and s'' = shop]
  from t g have "card (generic_candidates 3 (rels unrated_pair)) < nat 3" by simp
  moreover from u r have "card (recommend_candidates 5 3 (rels shop)) < nat 3" by simp
  ultimately show ?thesis using g r cg2 cr by simp
qed

end
